theory Spec2Isabelle
  imports Complex_Main "HOL-Library.Char_ord" "HOL-Library.List_Lexorder" "HOL-Library.Sublist"
begin

section \<open>Data model (src/firestore/types.ts)\<close>

text \<open>
  A stored payload is an arbitrary JavaScript object: a finite map from property names to
  values. Spreading an object copies the map, assigning a property is a map update, and
  \<^verbatim>\<open>delete o.k\<close> removes the key.
\<close>

datatype jsval = JNull | JBool bool | JNum int | JStr string | JArr "jsval list"

type_synonym jsobj = "string \<rightharpoonup> jsval"

datatype opStr =
  OpLt | OpLe | OpEq | OpNe | OpGe | OpGt | ArrayContains | OpIn | NotIn | ArrayContainsAny

datatype directionStr = Desc | Asc

text \<open>
  \<^verbatim>\<open>QueryConstraint = WhereContraint | OrderByConstraint\<close>: the \<^verbatim>\<open>type\<close> tag is the
  constructor; \<^verbatim>\<open>opStr\<close>, \<^verbatim>\<open>value\<close> and \<^verbatim>\<open>directionStr\<close> are optional properties.
\<close>

datatype QueryConstraint =
  WhereContraint string "opStr option" "jsval option"
| OrderByConstraint string "directionStr option"

text \<open>
  \<^verbatim>\<open>QueryCursor\<close>. The page size \<^verbatim>\<open>interval\<close> is a count and is taken as a natural
  number; \<^verbatim>\<open>startAfter\<close> is an optional reference path.
\<close>

record QueryCursor =
  interval :: nat
  hasNext :: bool
  startAfter :: "string option"

section \<open>Constraint builder (src/firestore/constraints.ts)\<close>

definition where_constraint :: "string \<Rightarrow> opStr \<Rightarrow> jsval \<Rightarrow> QueryConstraint" where
  "where_constraint fieldPath opStr val = WhereContraint fieldPath (Some opStr) (Some val)"

definition orderBy :: "string \<Rightarrow> directionStr option \<Rightarrow> QueryConstraint" where
  "orderBy fieldPath directionStr = OrderByConstraint fieldPath directionStr"

section \<open>The storage engine\<close>

text \<open>
  The library drives an external document store through its client: document reads,
  chainable queries (\<^verbatim>\<open>where\<close>, \<^verbatim>\<open>orderBy\<close>, \<^verbatim>\<open>startAfter\<close>, \<^verbatim>\<open>limit\<close>,
  \<^verbatim>\<open>get\<close>), single deletes and atomic batch writes. The engine is not part of the
  repository; this section models the contract the library relies on.

  \<^item> A document lives in a collection and has an identifier; its reference path is
    \<^verbatim>\<open>collection/id\<close>.
  \<^item> A query lists the documents of its collection in identifier order
    (\<^verbatim>\<open>__name__\<close>), applies its filter and sort clauses, starts strictly after the
    cursor document when one is set, and returns at most \<^verbatim>\<open>limit\<close> documents.
  \<^item> How the engine decides a filter, and how it ranks documents under a sort on a
    payload field, is never inspected by the library: both are parameters of the engine
    (\<open>fs_filter\<close>, \<open>fs_rank\<close>).
  \<^item> Any call may fail (unavailable service, rejected arguments, oversized batch, ...):
    \<open>fs_faults\<close> lists the outcome of the calls to come, one entry per call,
    \<open>Some e\<close> for a call that fails with \<open>e\<close>; once the list is used up every call
    succeeds.
  \<^item> \<open>fs_log\<close> records the calls the engine has served, oldest first.
\<close>

datatype error = EngineFailure string | CursorNotFound | InvalidPath

datatype transaction = Transaction nat

datatype event =
  DocRead "transaction option" string
| DocDelete "transaction option" string
| QueryRun nat
| BatchWrite "string list"
| Fault error

record document =
  doc_coll :: string
  doc_id :: string
  doc_data :: jsobj

definition doc_path :: "document \<Rightarrow> string" where
  "doc_path d = doc_coll d @ ''/'' @ doc_id d"

text \<open>A snapshot as the client hands it out: \<^verbatim>\<open>exists\<close>, \<^verbatim>\<open>id\<close>, \<^verbatim>\<open>ref.path\<close>, \<^verbatim>\<open>data()\<close>.\<close>

record snapshot =
  snap_exists :: bool
  snap_id :: string
  snap_ref :: string
  snap_data :: "jsobj option"

datatype clause =
  Filter string "opStr option" "jsval option"
| Sort string "directionStr option"

record query =
  q_coll :: string
  q_clauses :: "clause list"
  q_after :: "snapshot option"
  q_bound :: "nat option"

record firestore =
  fs_docs :: "document list"
  fs_faults :: "error option list"
  fs_log :: "event list"
  fs_filter :: "string \<Rightarrow> opStr option \<Rightarrow> jsval option \<Rightarrow> jsobj \<Rightarrow> bool"
  fs_rank :: "string \<Rightarrow> jsobj \<Rightarrow> nat option"

subsection \<open>References and query builders\<close>

text \<open>
  \<^verbatim>\<open>firestore.doc(path)\<close>. The client checks the path before any call to the engine: it
  throws on the empty string and on a path containing \<^verbatim>\<open>//\<close>, splits the path at the
  slashes, drops empty segments (so a leading or a trailing slash is ignored), and throws
  unless the segments are a non-zero, even number (collection, document, collection,
  document, ...). A document reference is identified with its path in canonical form: the
  segments joined by single slashes.
\<close>

fun split_slash :: "string \<Rightarrow> string list" where
  "split_slash [] = [[]]"
| "split_slash (c # cs) =
     (if c = CHR ''/'' then [] # split_slash cs
      else (case split_slash cs of s # ss \<Rightarrow> (c # s) # ss | [] \<Rightarrow> [[c]]))"

fun join_slash :: "string list \<Rightarrow> string" where
  "join_slash [] = []"
| "join_slash [s] = s"
| "join_slash (s # t # ss) = s @ ''/'' @ join_slash (t # ss)"

fun has_double_slash :: "string \<Rightarrow> bool" where
  "has_double_slash (c # d # cs) = (c = CHR ''/'' \<and> d = CHR ''/'' \<or> has_double_slash (d # cs))"
| "has_double_slash _ = False"

definition fs_doc :: "string \<Rightarrow> error + string" where
  "fs_doc path =
     (if path = [] \<or> has_double_slash path then Inl InvalidPath
      else
        (let segments = filter (\<lambda>s. s \<noteq> []) (split_slash path)
         in if segments \<noteq> [] \<and> even (length segments) then Inr (join_slash segments)
            else Inl InvalidPath))"

text \<open>\<^verbatim>\<open>firestore.collection(path)\<close>: the query for the whole collection.\<close>

definition fs_collection :: "string \<Rightarrow> query" where
  "fs_collection path = \<lparr>q_coll = path, q_clauses = [], q_after = None, q_bound = None\<rparr>"

definition q_where :: "query \<Rightarrow> string \<Rightarrow> opStr option \<Rightarrow> jsval option \<Rightarrow> query" where
  "q_where q fieldPath opStr val = q\<lparr>q_clauses := q_clauses q @ [Filter fieldPath opStr val]\<rparr>"

definition q_orderBy :: "query \<Rightarrow> string \<Rightarrow> directionStr option \<Rightarrow> query" where
  "q_orderBy q fieldPath directionStr = q\<lparr>q_clauses := q_clauses q @ [Sort fieldPath directionStr]\<rparr>"

definition q_startAfter :: "query \<Rightarrow> snapshot \<Rightarrow> query" where
  "q_startAfter q doc = q\<lparr>q_after := Some doc\<rparr>"

definition q_limit :: "query \<Rightarrow> nat \<Rightarrow> query" where
  "q_limit q n = q\<lparr>q_bound := Some n\<rparr>"

subsection \<open>Reading\<close>

definition snapshot_of :: "document \<Rightarrow> snapshot" where
  "snapshot_of d =
     \<lparr>snap_exists = True, snap_id = doc_id d, snap_ref = doc_path d, snap_data = Some (doc_data d)\<rparr>"

definition last_segment :: "string \<Rightarrow> string" where
  "last_segment path = rev (takeWhile (\<lambda>c. c \<noteq> CHR ''/'') (rev path))"

definition lookup_doc :: "document list \<Rightarrow> string \<Rightarrow> snapshot" where
  "lookup_doc ds path =
     (case find (\<lambda>d. doc_path d = path) ds of
        Some d \<Rightarrow> snapshot_of d
      | None \<Rightarrow> \<lparr>snap_exists = False, snap_id = last_segment path, snap_ref = path,
                 snap_data = None\<rparr>)"

text \<open>One served call: the next entry of the fault list is consumed and the event logged.\<close>

definition served :: "firestore \<Rightarrow> event \<Rightarrow> firestore" where
  "served fs ev = fs\<lparr>fs_faults := tl (fs_faults fs), fs_log := fs_log fs @ [ev]\<rparr>"

definition read_doc :: "firestore \<Rightarrow> transaction option \<Rightarrow> string \<Rightarrow> (error + snapshot) \<times> firestore" where
  "read_doc fs t ref =
     (case fs_faults fs of
        Some e # _ \<Rightarrow> (Inl e, served fs (Fault e))
      | _ \<Rightarrow> (Inr (lookup_doc (fs_docs fs) ref), served fs (DocRead t ref)))"

text \<open>\<^verbatim>\<open>ref.get()\<close> and \<^verbatim>\<open>t.get(ref)\<close>.\<close>

definition ref_get :: "firestore \<Rightarrow> string \<Rightarrow> (error + snapshot) \<times> firestore" where
  "ref_get fs ref = read_doc fs None ref"

definition tx_get :: "firestore \<Rightarrow> transaction \<Rightarrow> string \<Rightarrow> (error + snapshot) \<times> firestore" where
  "tx_get fs t ref = read_doc fs (Some t) ref"

subsection \<open>Running a query\<close>

fun apply_clause :: "firestore \<Rightarrow> clause \<Rightarrow> document list \<Rightarrow> document list" where
  "apply_clause fs (Filter f op v) ds = filter (\<lambda>d. fs_filter fs f op v (doc_data d)) ds"
| "apply_clause fs (Sort f dir) ds =
     (let sorted_ds =
        (if f = ''__name__'' then sort_key doc_id ds
         else sort_key (\<lambda>d. the (fs_rank fs f (doc_data d)))
                (filter (\<lambda>d. fs_rank fs f (doc_data d) \<noteq> None) ds))
      in if dir = Some Desc then rev sorted_ds else sorted_ds)"

text \<open>
  The documents a query matches, in result order, before cursor and limit. The first sort
  clause is the primary one, so the (stable) sorts are applied last clause first.
\<close>

definition matching :: "firestore \<Rightarrow> string \<Rightarrow> clause list \<Rightarrow> document list" where
  "matching fs coll cs =
     foldr (apply_clause fs) cs (sort_key doc_id (filter (\<lambda>d. doc_coll d = coll) (fs_docs fs)))"

fun after_doc :: "string \<Rightarrow> document list \<Rightarrow> document list option" where
  "after_doc r [] = None"
| "after_doc r (d # ds) = (if doc_path d = r then Some ds else after_doc r ds)"

definition positioned :: "snapshot option \<Rightarrow> document list \<Rightarrow> document list option" where
  "positioned after ds = (case after of None \<Rightarrow> Some ds | Some s \<Rightarrow> after_doc (snap_ref s) ds)"

definition bounded :: "nat option \<Rightarrow> document list \<Rightarrow> document list" where
  "bounded bound ds = (case bound of None \<Rightarrow> ds | Some n \<Rightarrow> take n ds)"

text \<open>\<^verbatim>\<open>query.get()\<close>: the snapshots of one page.\<close>

definition q_get :: "firestore \<Rightarrow> query \<Rightarrow> (error + snapshot list) \<times> firestore" where
  "q_get fs q =
     (case fs_faults fs of
        Some e # _ \<Rightarrow> (Inl e, served fs (Fault e))
      | _ \<Rightarrow>
        (case positioned (q_after q) (matching fs (q_coll q) (q_clauses q)) of
           None \<Rightarrow> (Inl CursorNotFound, served fs (Fault CursorNotFound))
         | Some ds \<Rightarrow>
             (let page = bounded (q_bound q) ds
              in (Inr (map snapshot_of page), served fs (QueryRun (length page))))))"

subsection \<open>Writing\<close>

definition remove_docs :: "string list \<Rightarrow> document list \<Rightarrow> document list" where
  "remove_docs refs ds = filter (\<lambda>d. doc_path d \<notin> set refs) ds"

definition delete_doc :: "firestore \<Rightarrow> transaction option \<Rightarrow> string \<Rightarrow> (error + unit) \<times> firestore" where
  "delete_doc fs t ref =
     (case fs_faults fs of
        Some e # _ \<Rightarrow> (Inl e, served fs (Fault e))
      | _ \<Rightarrow> (Inr (), (served fs (DocDelete t ref))\<lparr>fs_docs := remove_docs [ref] (fs_docs fs)\<rparr>))"

definition ref_delete :: "firestore \<Rightarrow> string \<Rightarrow> (error + unit) \<times> firestore" where
  "ref_delete fs ref = delete_doc fs None ref"

definition tx_delete :: "firestore \<Rightarrow> transaction \<Rightarrow> string \<Rightarrow> (error + unit) \<times> firestore" where
  "tx_delete fs t ref = delete_doc fs (Some t) ref"

text \<open>
  A write batch collects the references to delete (\<^verbatim>\<open>firestore.batch()\<close>,
  \<^verbatim>\<open>batch.delete(ref)\<close>); \<^verbatim>\<open>batch.commit()\<close> removes them all at once or fails and
  removes none.
\<close>

definition batch_new :: "string list" where
  "batch_new = []"

definition batch_delete :: "string list \<Rightarrow> string \<Rightarrow> string list" where
  "batch_delete batch ref = batch @ [ref]"

definition batch_commit :: "firestore \<Rightarrow> string list \<Rightarrow> (error + unit) \<times> firestore" where
  "batch_commit fs batch =
     (case fs_faults fs of
        Some e # _ \<Rightarrow> (Inl e, served fs (Fault e))
      | _ \<Rightarrow> (Inr (), (served fs (BatchWrite batch))\<lparr>fs_docs := remove_docs batch (fs_docs fs)\<rparr>))"

section \<open>FirestoreUtil (the class of the library)\<close>

text \<open>
  Every method is asynchronous: it takes the engine state, returns the state after its
  calls, and its promise is either rejected (\<open>Inl\<close>) or fulfilled (\<open>Inr\<close>). A rejection
  of an awaited engine call rejects the method's own promise with the same error, and so
  does an exception thrown by the client inside the method (\<^verbatim>\<open>firestore.doc\<close> on a path
  that is not a document path).
\<close>

subsection \<open>queryData\<close>

text \<open>
  \<^verbatim>\<open>const clone = { ...qr }; delete clone.id; delete clone.ref; return clone;\<close>
\<close>

definition queryData :: "jsobj \<Rightarrow> jsobj" where
  "queryData qr =
     (let clone = qr;
          clone = clone(''id'' := None);
          clone = clone(''ref'' := None)
      in clone)"

subsection \<open>Query composition\<close>

text \<open>
  \<^verbatim>\<open>_applyQueryConstraints\<close>: the \<^verbatim>\<open>forEach\<close> over the constraint list is a left fold
  on the query.
\<close>

definition applyQueryConstraints :: "query \<Rightarrow> QueryConstraint list \<Rightarrow> query" where
  "applyQueryConstraints query queryConstraints =
     foldl (\<lambda>q constraint.
              (case constraint of
                 OrderByConstraint fieldPath directionStr \<Rightarrow> q_orderBy q fieldPath directionStr
               | WhereContraint fieldPath opStr val \<Rightarrow> q_where q fieldPath opStr val))
       query queryConstraints"

text \<open>
  \<^verbatim>\<open>_applyCursor\<close>. Both tests are JavaScript truthiness tests: \<^verbatim>\<open>cursor.startAfter\<close>
  is truthy when it is set to a non-empty string, \<^verbatim>\<open>cursor.interval\<close> when it is not 0.
\<close>

definition applyCursor :: "firestore \<Rightarrow> query \<Rightarrow> QueryCursor \<Rightarrow> (error + query) \<times> firestore" where
  "applyCursor fs query cursor =
     (case (case startAfter cursor of
              Some r \<Rightarrow>
                (if r \<noteq> [] then
                   (case fs_doc r of
                      Inl e \<Rightarrow> (Inl e, fs)
                    | Inr ref \<Rightarrow>
                        (case ref_get fs ref of
                           (Inl e, fs1) \<Rightarrow> (Inl e, fs1)
                         | (Inr doc, fs1) \<Rightarrow> (Inr (q_startAfter query doc), fs1)))
                 else (Inr query, fs))
            | None \<Rightarrow> (Inr query, fs)) of
        (Inl e, fs1) \<Rightarrow> (Inl e, fs1)
      | (Inr q, fs1) \<Rightarrow>
          (Inr (if interval cursor \<noteq> 0 then q_limit q (interval cursor) else q), fs1))"

subsection \<open>Reading documents and collections\<close>

text \<open>\<^verbatim>\<open>{ ...snapshot.data(), id: snapshot.id, ref: snapshot.ref.path }\<close>\<close>

definition spread :: "jsobj option \<Rightarrow> jsobj" where
  "spread data = (case data of None \<Rightarrow> Map.empty | Some m \<Rightarrow> m)"

definition docQuery :: "firestore \<Rightarrow> string \<Rightarrow> transaction option \<Rightarrow> (error + jsobj option) \<times> firestore" where
  "docQuery fs refStr t =
     (case fs_doc refStr of
        Inl e \<Rightarrow> (Inl e, fs)
      | Inr ref \<Rightarrow>
          (case (case t of Some tx \<Rightarrow> tx_get fs tx ref | None \<Rightarrow> ref_get fs ref) of
             (Inl e, fs1) \<Rightarrow> (Inl e, fs1)
           | (Inr snapshot, fs1) \<Rightarrow>
               (if snap_exists snapshot then
                  (Inr (Some ((spread (snap_data snapshot))
                          (''id'' \<mapsto> JStr (snap_id snapshot),
                           ''ref'' \<mapsto> JStr (snap_ref snapshot)))), fs1)
                else (Inr None, fs1))))"

text \<open>
  \<^verbatim>\<open>collectionQuery\<close>; the \<^verbatim>\<open>forEach\<close> that pushes one item per snapshot is a
  \<open>map\<close>. The default of \<^verbatim>\<open>queryConstraints\<close> is the empty list.
\<close>

definition collectionQuery ::
  "firestore \<Rightarrow> string \<Rightarrow> QueryConstraint list \<Rightarrow> QueryCursor option \<Rightarrow> (error + jsobj list) \<times> firestore" where
  "collectionQuery fs refStr queryConstraints cursor =
     (let ref = fs_collection refStr;
          q = applyQueryConstraints ref queryConstraints
      in case (case cursor of Some c \<Rightarrow> applyCursor fs q c | None \<Rightarrow> (Inr q, fs)) of
           (Inl e, fs1) \<Rightarrow> (Inl e, fs1)
         | (Inr q, fs1) \<Rightarrow>
             (case q_get fs1 q of
                (Inl e, fs2) \<Rightarrow> (Inl e, fs2)
              | (Inr querySnapshot, fs2) \<Rightarrow>
                  (Inr (map (\<lambda>snapshot.
                          (spread (snap_data snapshot))
                            (''id'' \<mapsto> JStr (snap_id snapshot),
                             ''ref'' \<mapsto> JStr (snap_ref snapshot)))
                        querySnapshot), fs2)))"

subsection \<open>cursorQuery\<close>

text \<open>Reading a string property of an item (\<^verbatim>\<open>data[_length - 1].ref\<close>).\<close>

definition str_prop :: "jsobj \<Rightarrow> string \<Rightarrow> string option" where
  "str_prop obj k = (case obj k of Some (JStr s) \<Rightarrow> Some s | _ \<Rightarrow> None)"

definition default_cursor :: QueryCursor where
  "default_cursor = \<lparr>interval = 10, hasNext = True, startAfter = None\<rparr>"

definition cursorQuery ::
  "firestore \<Rightarrow> string \<Rightarrow> QueryConstraint list \<Rightarrow> QueryCursor option
     \<Rightarrow> (error + jsobj list \<times> QueryCursor) \<times> firestore" where
  "cursorQuery fs refStr queryConstraints cursor_opt =
     (let cursor = (case cursor_opt of Some c \<Rightarrow> c | None \<Rightarrow> default_cursor)
      in case collectionQuery fs refStr queryConstraints (Some cursor) of
           (Inl e, fs1) \<Rightarrow> (Inl e, fs1)
         | (Inr data, fs1) \<Rightarrow>
             (let len = length data;
                  startAfter' = (if len = 0 then startAfter cursor
                                 else str_prop (data ! (len - 1)) ''ref'');
                  hasNext' = (len = interval cursor)
              in (Inr (data, cursor\<lparr>startAfter := startAfter', hasNext := hasNext'\<rparr>), fs1)))"

subsection \<open>Deleting\<close>

definition deleteDoc :: "firestore \<Rightarrow> string \<Rightarrow> transaction option \<Rightarrow> (error + unit) \<times> firestore" where
  "deleteDoc fs refStr t =
     (case fs_doc refStr of
        Inl e \<Rightarrow> (Inl e, fs)
      | Inr ref \<Rightarrow> (case t of Some tx \<Rightarrow> tx_delete fs tx ref | None \<Rightarrow> ref_delete fs ref))"

text \<open>
  \<^verbatim>\<open>deleteCollection\<close> works in rounds. A round only ever deletes documents of the
  store, and a round that fetched a non-empty page leaves the store strictly smaller:
  this is what makes the recursion of \<^verbatim>\<open>_deleteQueryBatch\<close> end.
\<close>

lemma set_apply_clause: "set (apply_clause fs c ds) \<subseteq> set ds"
  by (cases c) (auto simp: Let_def)

lemma set_matching: "set (matching fs coll cs) \<subseteq> set (fs_docs fs)"
proof -
  have "set (foldr (apply_clause fs) cs base) \<subseteq> set base" for base
  proof (induction cs)
    case Nil
    show ?case by simp
  next
    case (Cons c cs)
    have "set (apply_clause fs c (foldr (apply_clause fs) cs base))
            \<subseteq> set (foldr (apply_clause fs) cs base)"
      by (rule set_apply_clause)
    with Cons.IH show ?case by simp
  qed
  then show ?thesis
    unfolding matching_def by fastforce
qed

lemma set_after_doc: "after_doc r ds = Some ys \<Longrightarrow> set ys \<subseteq> set ds"
  by (induction ds) (auto split: if_splits)

lemma set_bounded: "set (bounded b ds) \<subseteq> set ds"
  by (auto simp: bounded_def split: option.splits dest: in_set_takeD)

lemma q_get_docs:
  assumes "q_get fs q = (Inr snaps, fs1)"
  shows "fs_docs fs1 = fs_docs fs" and "\<exists>page. snaps = map snapshot_of page \<and> set page \<subseteq> set (fs_docs fs)"
proof -
  from assms obtain ds where
    ds: "positioned (q_after q) (matching fs (q_coll q) (q_clauses q)) = Some ds"
    and snaps: "snaps = map snapshot_of (bounded (q_bound q) ds)"
    and fs1: "fs1 = served fs (QueryRun (length (bounded (q_bound q) ds)))"
    by (auto simp: q_get_def Let_def split: list.splits option.splits)
  show "fs_docs fs1 = fs_docs fs" by (simp add: fs1 served_def)
  have "set ds \<subseteq> set (matching fs (q_coll q) (q_clauses q))"
    using ds set_after_doc by (auto simp: positioned_def split: option.splits)
  with set_matching set_bounded have "set (bounded (q_bound q) ds) \<subseteq> set (fs_docs fs)"
    by blast
  with snaps show "\<exists>page. snaps = map snapshot_of page \<and> set page \<subseteq> set (fs_docs fs)" by blast
qed

lemma batch_commit_docs:
  "batch_commit fs b = (Inr u, fs2) \<Longrightarrow> fs_docs fs2 = remove_docs b (fs_docs fs)"
  by (auto simp: batch_commit_def served_def split: list.splits option.splits)

lemma collect_batch: "foldl batch_delete b refs = b @ refs"
  by (induction refs arbitrary: b) (auto simp: batch_delete_def)

lemma remove_docs_shrinks:
  assumes "d \<in> set ds" "doc_path d \<in> set refs"
  shows "length (remove_docs refs ds) < length ds"
  unfolding remove_docs_def using assms
  by (metis (mono_tags, lifting) length_filter_less)


lemma delete_round_shrinks:
  assumes get: "q_get fs q = (Inr snaps, fs1)"
    and nonempty: "snaps \<noteq> []"
    and commit: "batch_commit fs1 (foldl batch_delete batch_new (map snap_ref snaps)) = (Inr u, fs2)"
  shows "length (fs_docs fs2) < length (fs_docs fs)"
proof -
  from q_get_docs [OF get] obtain page where
    same: "fs_docs fs1 = fs_docs fs" and page: "snaps = map snapshot_of page"
    and sub: "set page \<subseteq> set (fs_docs fs)"
    by blast
  from nonempty page obtain d where d: "d \<in> set page"
    by (cases page) auto
  have refs: "foldl batch_delete batch_new (map snap_ref snaps) = map doc_path page"
    by (simp add: collect_batch batch_new_def page snapshot_of_def)
  have "length (remove_docs (map doc_path page) (fs_docs fs)) < length (fs_docs fs)"
    using d sub by (intro remove_docs_shrinks [of d]) auto
  with batch_commit_docs [OF commit] same refs show ?thesis
    by simp
qed

text \<open>
  \<^verbatim>\<open>_deleteQueryBatch(query, resolve)\<close>. The result holds, in this order: how the
  promise of this very call settles (\<open>Inl e\<close>: rejected with \<open>e\<close>), whether and with what
  value \<^verbatim>\<open>resolve\<close> has been called by the time all scheduled rounds have run, and the
  engine state then. The next round runs in a \<^verbatim>\<open>process.nextTick\<close> callback: the promise
  of that call is dropped, so only its call of \<^verbatim>\<open>resolve\<close> and its effect on the engine
  are seen, and this call's own promise is fulfilled.
\<close>

function deleteQueryBatch :: "firestore \<Rightarrow> query \<Rightarrow> (error + unit) \<times> bool option \<times> firestore" where
  "deleteQueryBatch fs query =
     (case q_get fs query of
        (Inl e, fs1) \<Rightarrow> (Inl e, None, fs1)
      | (Inr snapshot, fs1) \<Rightarrow>
          (let batchSize = length snapshot
           in if batchSize = 0 then (Inr (), Some True, fs1)
              else
                (let batch = foldl batch_delete batch_new (map snap_ref snapshot)
                 in case batch_commit fs1 batch of
                      (Inl e, fs2) \<Rightarrow> (Inl e, None, fs2)
                    | (Inr _, fs2) \<Rightarrow>
                        (case deleteQueryBatch fs2 query of
                           (_, resolved, fs3) \<Rightarrow> (Inr (), resolved, fs3)))))"
  by pat_completeness auto
termination
proof (relation "measure (\<lambda>(fs, q). length (fs_docs fs))", goal_cases)
  case 1
  show ?case by simp
next
  case (2 fs query x y b xa xb xc ya ba)
  then show ?case
    using delete_round_shrinks [of fs query b y ba ya] by auto
qed

declare deleteQueryBatch.simps [simp del]

text \<open>
  The promise \<^verbatim>\<open>deleteCollection\<close> returns: \<^verbatim>\<open>new Promise((resolve, reject) =>
  this._deleteQueryBatch(query, resolve).catch(reject))\<close>. It is rejected when the promise of
  the first round is, resolved when some round calls \<^verbatim>\<open>resolve\<close>, and stays pending
  otherwise. The default of \<^verbatim>\<open>batchSize\<close> is 300.
\<close>

datatype 'a promise = Resolved 'a | Rejected error | Pending

definition deleteCollection :: "firestore \<Rightarrow> string \<Rightarrow> nat \<Rightarrow> bool promise \<times> firestore" where
  "deleteCollection fs refStr batchSize =
     (let collectionRef = fs_collection refStr;
          query = q_limit (q_orderBy collectionRef ''__name__'' None) batchSize
      in case deleteQueryBatch fs query of
           (Inl e, _, fs1) \<Rightarrow> (Rejected e, fs1)
         | (Inr _, Some v, fs1) \<Rightarrow> (Resolved v, fs1)
         | (Inr _, None, fs1) \<Rightarrow> (Pending, fs1))"

section \<open>A pagination session\<close>

text \<open>
  The caller's side of the cursor protocol: call \<^verbatim>\<open>cursorQuery\<close>, pass the returned
  cursor back in, stop when it says \<^verbatim>\<open>hasNext = false\<close> or a call is rejected. The
  loop need not end (a cursor with \<^verbatim>\<open>interval = 0\<close> on an empty collection keeps
  \<^verbatim>\<open>hasNext = true\<close>), so it is given fuel: one unit per call, \<open>None\<close> when it runs out.
  The result lists the pages in the order they were fetched.
\<close>

fun paginate ::
  "nat \<Rightarrow> firestore \<Rightarrow> string \<Rightarrow> QueryConstraint list \<Rightarrow> QueryCursor option
     \<Rightarrow> ((error + jsobj list list) \<times> firestore) option" where
  "paginate 0 fs refStr queryConstraints cursor = None"
| "paginate (Suc fuel) fs refStr queryConstraints cursor =
     (case cursorQuery fs refStr queryConstraints cursor of
        (Inl e, fs1) \<Rightarrow> Some (Inl e, fs1)
      | (Inr (data, cursor'), fs1) \<Rightarrow>
          (if hasNext cursor' then
             (case paginate fuel fs1 refStr queryConstraints (Some cursor') of
                None \<Rightarrow> None
              | Some (Inl e, fs2) \<Rightarrow> Some (Inl e, fs2)
              | Some (Inr pages, fs2) \<Rightarrow> Some (Inr (data # pages), fs2))
           else Some (Inr [data], fs1)))"

text \<open>\<open>cursor_after n\<close>: the cursor after \<open>n\<close> successive calls, each passed the cursor the
  previous one returned.\<close>

fun cursor_after ::
  "nat \<Rightarrow> firestore \<Rightarrow> string \<Rightarrow> QueryConstraint list \<Rightarrow> QueryCursor \<Rightarrow> (error + QueryCursor) \<times> firestore" where
  "cursor_after 0 fs refStr qcs c = (Inr c, fs)"
| "cursor_after (Suc n) fs refStr qcs c =
     (case cursorQuery fs refStr qcs (Some c) of
        (Inl e, fs1) \<Rightarrow> (Inl e, fs1)
      | (Inr (data, c'), fs1) \<Rightarrow> cursor_after n fs1 refStr qcs c')"

text \<open>
  A session starts fresh with page size \<open>p\<close> when it is started with no cursor (the default
  cursor, of page size 10) or with a cursor of page size \<open>p\<close> that has no \<^verbatim>\<open>startAfter\<close>.
\<close>

definition fresh_session :: "QueryCursor option \<Rightarrow> nat \<Rightarrow> bool" where
  "fresh_session start p =
     (case start of
        None \<Rightarrow> p = interval default_cursor
      | Some c \<Rightarrow> interval c = p \<and> startAfter c = None)"

text \<open>
  A session that has consumed the first \<open>j\<close> records of the result stream \<open>M\<close> holds a
  cursor that points at record \<open>j - 1\<close> (at nothing when \<open>j = 0\<close>).
\<close>

definition position :: "document list \<Rightarrow> nat \<Rightarrow> string option" where
  "position M j = (if j = 0 then None else Some (doc_path (M ! (j - 1))))"

section \<open>Caller-owned objects\<close>

text \<open>
  Whether a call mutates an argument is a question about object identity, so this section
  places the caller-visible objects in a heap: a cursor, a result item, a constraint and a
  constraint list (an array of references) each live in a cell, and arguments and results
  are addresses. An object literal or a spread allocates a new cell; reading a property
  reads a cell; \<^verbatim>\<open>delete o.k\<close> writes the cell of \<open>o\<close>. The functions below follow the
  source statement by statement in what they read, allocate and write; what they compute is
  what the functions of the previous sections compute. A call returns \<open>None\<close> when an
  address it is given does not hold an object of the declared TypeScript type.
\<close>

type_synonym addr = nat

datatype cell =
  ObjCell jsobj
| CursorCell QueryCursor
| ConstraintCell QueryConstraint
| ArrayCell "addr list"

type_synonym heap = "cell list"

definition alloc :: "heap \<Rightarrow> cell \<Rightarrow> heap \<times> addr" where
  "alloc h c = (h @ [c], length h)"

definition alloc_all :: "heap \<Rightarrow> cell list \<Rightarrow> heap \<times> addr list" where
  "alloc_all h cs = (h @ cs, [length h ..< length h + length cs])"

definition cell_at :: "heap \<Rightarrow> addr \<Rightarrow> cell option" where
  "cell_at h a = (if a < length h then Some (h ! a) else None)"

definition read_obj :: "heap \<Rightarrow> addr \<Rightarrow> jsobj option" where
  "read_obj h a = (case cell_at h a of Some (ObjCell props) \<Rightarrow> Some props | _ \<Rightarrow> None)"

definition read_cursor :: "heap \<Rightarrow> addr \<Rightarrow> QueryCursor option" where
  "read_cursor h a = (case cell_at h a of Some (CursorCell c) \<Rightarrow> Some c | _ \<Rightarrow> None)"

definition read_constraint :: "heap \<Rightarrow> addr \<Rightarrow> QueryConstraint option" where
  "read_constraint h a = (case cell_at h a of Some (ConstraintCell c) \<Rightarrow> Some c | _ \<Rightarrow> None)"

fun read_all :: "(addr \<Rightarrow> 'a option) \<Rightarrow> addr list \<Rightarrow> 'a list option" where
  "read_all rd [] = Some []"
| "read_all rd (a # as) =
     (case rd a of
        None \<Rightarrow> None
      | Some x \<Rightarrow> (case read_all rd as of None \<Rightarrow> None | Some xs \<Rightarrow> Some (x # xs)))"

definition read_constraints :: "heap \<Rightarrow> addr \<Rightarrow> QueryConstraint list option" where
  "read_constraints h a =
     (case cell_at h a of Some (ArrayCell as) \<Rightarrow> read_all (read_constraint h) as | _ \<Rightarrow> None)"

definition read_items :: "heap \<Rightarrow> addr \<Rightarrow> jsobj list option" where
  "read_items h a =
     (case cell_at h a of Some (ArrayCell as) \<Rightarrow> read_all (read_obj h) as | _ \<Rightarrow> None)"

text \<open>\<^verbatim>\<open>delete o.k\<close>: the library's only write to a property of an existing object.\<close>

definition delete_prop :: "heap \<Rightarrow> addr \<Rightarrow> string \<Rightarrow> heap" where
  "delete_prop h a k =
     (case read_obj h a of Some props \<Rightarrow> h[a := ObjCell (props(k := None))] | None \<Rightarrow> h)"

text \<open>
  \<^verbatim>\<open>queryData(qr)\<close>: the spread allocates the clone, both deletes write the clone, the
  clone is returned.
\<close>

definition queryData_ref :: "heap \<Rightarrow> addr \<Rightarrow> (addr \<times> heap) option" where
  "queryData_ref h qr =
     (case read_obj h qr of
        None \<Rightarrow> None
      | Some props \<Rightarrow>
          (let (h1, clone) = alloc h (ObjCell props);
               h2 = delete_prop h1 clone ''id'';
               h3 = delete_prop h2 clone ''ref''
           in Some (clone, h3)))"

text \<open>
  \<^verbatim>\<open>_applyQueryConstraints(query, queryConstraints)\<close>: the \<^verbatim>\<open>forEach\<close> reads the array and
  the properties of each constraint, and reassigns only the local variable \<^verbatim>\<open>q\<close>.
\<close>

definition applyQueryConstraints_ref :: "heap \<Rightarrow> query \<Rightarrow> addr \<Rightarrow> (query \<times> heap) option" where
  "applyQueryConstraints_ref h query queryConstraints =
     (case read_constraints h queryConstraints of
        None \<Rightarrow> None
      | Some constraints \<Rightarrow> Some (applyQueryConstraints query constraints, h))"

text \<open>
  \<^verbatim>\<open>collectionQuery\<close> reads the constraints and the cursor (\<^verbatim>\<open>_applyCursor\<close> reads
  \<^verbatim>\<open>cursor.startAfter\<close> and \<^verbatim>\<open>cursor.interval\<close>), and allocates the items it pushes and the
  \<^verbatim>\<open>data\<close> array.
\<close>

definition collectionQuery_ref ::
  "firestore \<Rightarrow> heap \<Rightarrow> string \<Rightarrow> addr \<Rightarrow> addr option \<Rightarrow> ((error + addr) \<times> firestore \<times> heap) option" where
  "collectionQuery_ref fs h refStr queryConstraints cursor =
     (case read_constraints h queryConstraints of
        None \<Rightarrow> None
      | Some constraints \<Rightarrow>
          (case (case cursor of None \<Rightarrow> Some None | Some a \<Rightarrow> map_option Some (read_cursor h a)) of
             None \<Rightarrow> None
           | Some c \<Rightarrow>
               (case collectionQuery fs refStr constraints c of
                  (Inl e, fs1) \<Rightarrow> Some (Inl e, fs1, h)
                | (Inr items, fs1) \<Rightarrow>
                    (let (h1, item_addrs) = alloc_all h (map ObjCell items);
                         (h2, data) = alloc h1 (ArrayCell item_addrs)
                     in Some (Inr data, fs1, h2)))))"

text \<open>
  \<^verbatim>\<open>cursorQuery\<close>: \<^verbatim>\<open>_cursor || { interval: 10, hasNext: true }\<close> allocates the default
  cursor only when none is passed; \<^verbatim>\<open>{ ...cursor, startAfter, hasNext }\<close> allocates the
  returned cursor. The result is the pair of the \<^verbatim>\<open>data\<close> array and the new cursor.
\<close>

definition cursorQuery_ref ::
  "firestore \<Rightarrow> heap \<Rightarrow> string \<Rightarrow> addr \<Rightarrow> addr option
     \<Rightarrow> ((error + addr \<times> addr) \<times> firestore \<times> heap) option" where
  "cursorQuery_ref fs h refStr queryConstraints cursor_arg =
     (let (h1, cursor) = (case cursor_arg of
                            Some a \<Rightarrow> (h, a)
                          | None \<Rightarrow> alloc h (CursorCell default_cursor))
      in case collectionQuery_ref fs h1 refStr queryConstraints (Some cursor) of
           None \<Rightarrow> None
         | Some (Inl e, fs1, h2) \<Rightarrow> Some (Inl e, fs1, h2)
         | Some (Inr data, fs1, h2) \<Rightarrow>
             (case (read_items h2 data, read_cursor h2 cursor) of
                (Some items, Some c) \<Rightarrow>
                  (let len = length items;
                       startAfter' = (if len = 0 then startAfter c
                                      else str_prop (items ! (len - 1)) ''ref'');
                       hasNext' = (len = interval c);
                       (h3, cursor') =
                         alloc h2 (CursorCell (c\<lparr>startAfter := startAfter', hasNext := hasNext'\<rparr>))
                   in Some (Inr (data, cursor'), fs1, h3))
              | _ \<Rightarrow> None))"

section \<open>Vocabulary of the properties\<close>

text \<open>The next call to the engine does not fail; no call to come fails.\<close>

definition call_succeeds :: "firestore \<Rightarrow> bool" where
  "call_succeeds fs = (case fs_faults fs of Some e # _ \<Rightarrow> False | _ \<Rightarrow> True)"

definition reliable :: "firestore \<Rightarrow> bool" where
  "reliable fs \<longleftrightarrow> (\<forall>f\<in>set (fs_faults fs). f = None)"

text \<open>A well-formed store holds at most one document per reference path.\<close>

definition wf_store :: "firestore \<Rightarrow> bool" where
  "wf_store fs \<longleftrightarrow> distinct (map doc_path (fs_docs fs))"

text \<open>
  The reference path of every stored document is a document path in canonical form: the
  client accepts it and leaves it as it is. This is so whenever the collection path is an
  odd number of segments joined by slashes and the identifier is a segment, a segment being
  a non-empty string without a slash (lemma \<open>canonical_doc\<close>).
\<close>

definition segment :: "string \<Rightarrow> bool" where
  "segment s \<longleftrightarrow> s \<noteq> [] \<and> CHR ''/'' \<notin> set s"

definition canonical_refs :: "firestore \<Rightarrow> bool" where
  "canonical_refs fs \<longleftrightarrow> (\<forall>d\<in>set (fs_docs fs). fs_doc (doc_path d) = Inr (doc_path d))"

text \<open>The records of a collection, in identifier order.\<close>

definition collection_docs :: "firestore \<Rightarrow> string \<Rightarrow> document list" where
  "collection_docs fs path = sort_key doc_id (filter (\<lambda>d. doc_coll d = path) (fs_docs fs))"

text \<open>The result item of a stored document, and what it means to carry its identity.\<close>

definition item_of :: "document \<Rightarrow> jsobj" where
  "item_of d = (doc_data d)(''id'' \<mapsto> JStr (doc_id d), ''ref'' \<mapsto> JStr (doc_path d))"

definition carries_identity :: "jsobj \<Rightarrow> document \<Rightarrow> bool" where
  "carries_identity item d \<longleftrightarrow>
     item ''id'' = Some (JStr (doc_id d)) \<and> item ''ref'' = Some (JStr (doc_path d)) \<and>
     queryData item = queryData (doc_data d)"

text \<open>
  Reading the engine's log: the page sizes of the query rounds, and the references deleted
  by batch writes, both in the order of the calls.
\<close>

fun query_rounds :: "event list \<Rightarrow> nat list" where
  "query_rounds [] = []"
| "query_rounds (QueryRun n # evs) = n # query_rounds evs"
| "query_rounds (_ # evs) = query_rounds evs"

fun deleted_refs :: "event list \<Rightarrow> string list" where
  "deleted_refs [] = []"
| "deleted_refs (BatchWrite refs # evs) = refs @ deleted_refs evs"
| "deleted_refs (_ # evs) = deleted_refs evs"

text \<open>\<open>ceil_div n b\<close> is \<open>\<lceil>n / b\<rceil>\<close> for \<open>b > 0\<close> (lemma \<open>ceil_div_ceiling\<close>).\<close>

definition ceil_div :: "nat \<Rightarrow> nat \<Rightarrow> nat" where
  "ceil_div n b = (n + b - 1) div b"

text \<open>The clause a constraint contributes to a query.\<close>

fun clause_of :: "QueryConstraint \<Rightarrow> clause" where
  "clause_of (WhereContraint f op v) = Filter f op v"
| "clause_of (OrderByConstraint f dir) = Sort f dir"

section \<open>Example data\<close>

text \<open>
  A small store used to instantiate the theorems: three documents in \<^verbatim>\<open>items\<close>, one of
  them with payload fields named \<^verbatim>\<open>id\<close> and \<^verbatim>\<open>ref\<close>, and one document elsewhere.
\<close>

definition item_a :: document where
  "item_a = \<lparr>doc_coll = ''items'', doc_id = ''a'',
              doc_data = [''id'' \<mapsto> JStr ''payload-id'', ''ref'' \<mapsto> JNum 7, ''n'' \<mapsto> JNum 1]\<rparr>"

definition item_b :: document where
  "item_b = \<lparr>doc_coll = ''items'', doc_id = ''b'', doc_data = [''n'' \<mapsto> JNum 2]\<rparr>"

definition item_c :: document where
  "item_c = \<lparr>doc_coll = ''items'', doc_id = ''c'', doc_data = Map.empty\<rparr>"

definition note_x :: document where
  "note_x = \<lparr>doc_coll = ''notes'', doc_id = ''x'', doc_data = [''n'' \<mapsto> JNum 0]\<rparr>"

definition store_of :: "document list \<Rightarrow> error option list \<Rightarrow> firestore" where
  "store_of ds faults =
     \<lparr>fs_docs = ds, fs_faults = faults, fs_log = [],
      fs_filter = (\<lambda>f op v data. True), fs_rank = (\<lambda>f data. None)\<rparr>"

definition example_store :: firestore where
  "example_store = store_of [item_c, note_x, item_a, item_b] []"

lemmas example_defs =
  item_a_def item_b_def item_c_def note_x_def store_of_def example_store_def

lemmas engine_defs =
  doc_path_def fs_doc_def fs_collection_def q_where_def q_orderBy_def q_startAfter_def q_limit_def
  snapshot_of_def last_segment_def lookup_doc_def served_def read_doc_def ref_get_def tx_get_def
  matching_def positioned_def bounded_def q_get_def remove_docs_def delete_doc_def ref_delete_def
  tx_delete_def batch_new_def batch_delete_def batch_commit_def

lemmas util_defs =
  queryData_def applyQueryConstraints_def applyCursor_def spread_def docQuery_def
  collectionQuery_def str_prop_def default_cursor_def cursorQuery_def deleteDoc_def
  deleteCollection_def Let_def

lemmas property_defs =
  call_succeeds_def reliable_def wf_store_def canonical_refs_def collection_docs_def item_of_def
  carries_identity_def ceil_div_def

text \<open>A store of two records whose engine fails its third call.\<close>

definition flaky_store :: firestore where
  "flaky_store = store_of [item_a, item_b] [None, None, Some (EngineFailure ''unavailable'')]"

text \<open>An example heap: a result item, a cursor, a constraint, and the list holding it.\<close>

definition example_heap :: heap where
  "example_heap =
     [ObjCell (item_of item_a),
      CursorCell \<lparr>interval = 2, hasNext = True, startAfter = None\<rparr>,
      ConstraintCell (orderBy ''__name__'' (Some Asc)),
      ArrayCell [2]]"

lemmas heap_defs =
  alloc_def alloc_all_def cell_at_def read_obj_def read_cursor_def read_constraint_def
  read_constraints_def read_items_def delete_prop_def queryData_ref_def
  applyQueryConstraints_ref_def collectionQuery_ref_def cursorQuery_ref_def example_heap_def

section \<open>Facts about the engine and the library\<close>

lemma served_fields [simp]:
  "fs_docs (served fs ev) = fs_docs fs"
  "fs_faults (served fs ev) = tl (fs_faults fs)"
  "fs_log (served fs ev) = fs_log fs @ [ev]"
  "fs_filter (served fs ev) = fs_filter fs"
  "fs_rank (served fs ev) = fs_rank fs"
  by (simp_all add: served_def)

lemma reliable_served: "reliable fs \<Longrightarrow> reliable (served fs ev)"
  by (cases "fs_faults fs") (auto simp: reliable_def served_def)

lemma reliable_docs_update: "reliable (fs\<lparr>fs_docs := ds\<rparr>) = reliable fs"
  by (simp add: reliable_def)

lemma reliable_no_fault: "reliable fs \<Longrightarrow> fs_faults fs = [] \<or> (\<exists>rest. fs_faults fs = None # rest)"
  by (cases "fs_faults fs") (auto simp: reliable_def)

lemma ceil_div_bounds:
  assumes "0 < b"
  shows "n \<le> ceil_div n b * b" and "ceil_div n b * b < n + b"
proof -
  have "(n + b - 1) mod b < b" using assms by simp
  moreover have "ceil_div n b * b + (n + b - 1) mod b = n + b - 1"
    by (simp add: ceil_div_def)
  ultimately show "n \<le> ceil_div n b * b" and "ceil_div n b * b < n + b"
    using assms by linarith+
qed

lemma ceil_div_ceiling:
  assumes "0 < b"
  shows "int (ceil_div n b) = \<lceil>real n / real b\<rceil>"
proof (rule sym, rule ceiling_unique)
  have "real n \<le> real (ceil_div n b * b)"
    using ceil_div_bounds(1) [OF assms, of n] by (simp only: of_nat_le_iff)
  then show "real n / real b \<le> of_int (int (ceil_div n b))"
    using assms by (simp add: field_simps)
  have "real (ceil_div n b * b) < real (n + b)"
    using ceil_div_bounds(2) [OF assms, of n] by (simp only: of_nat_less_iff)
  then show "of_int (int (ceil_div n b)) - 1 < real n / real b"
    using assms by (simp add: field_simps)
qed

lemma ceil_div_step:
  assumes "0 < b" "0 < n"
  shows "ceil_div n b = Suc (ceil_div (n - b) b)"
proof (cases "b \<le> n")
  case True
  with assms have "n + b - 1 = (n - 1) + b" "n - b + b - 1 = n - 1"
    by simp_all
  then have "(n + b - 1) div b = Suc ((n - b + b - 1) div b)"
    using assms by (simp only: div_add_self2)
  then show ?thesis by (simp only: ceil_div_def)
next
  case False
  with assms have "(n + b - 1) div b = 1"
    by (intro div_nat_eqI) simp_all
  moreover from assms have "(b - 1) div b = 0" by simp
  ultimately show ?thesis using False by (simp add: ceil_div_def)
qed

lemma set_matching_coll: "d \<in> set (matching fs coll cs) \<Longrightarrow> doc_coll d = coll"
proof -
  have "set (foldr (apply_clause fs) cs base) \<subseteq> set base" for base
  proof (induction cs)
    case Nil
    show ?case by simp
  next
    case (Cons c cs)
    have "set (apply_clause fs c (foldr (apply_clause fs) cs base))
            \<subseteq> set (foldr (apply_clause fs) cs base)"
      by (rule set_apply_clause)
    with Cons.IH show ?case by simp
  qed
  then have "set (matching fs coll cs) \<subseteq> set (sort_key doc_id (filter (\<lambda>d. doc_coll d = coll) (fs_docs fs)))"
    unfolding matching_def .
  then show "d \<in> set (matching fs coll cs) \<Longrightarrow> doc_coll d = coll"
    by auto
qed

lemma applyQueryConstraints_eq:
  "applyQueryConstraints q cs = q\<lparr>q_clauses := q_clauses q @ map clause_of cs\<rparr>"
  unfolding applyQueryConstraints_def
proof (induction cs arbitrary: q)
  case Nil
  show ?case by simp
next
  case (Cons c cs)
  show ?case
    by (cases c) (simp_all add: Cons.IH q_where_def q_orderBy_def)
qed


lemma read_doc_docs: "read_doc fs t ref = (r, fs1) \<Longrightarrow> fs_docs fs1 = fs_docs fs"
  by (auto simp: read_doc_def served_def split: list.splits option.splits)

lemma applyCursor_docs: "applyCursor fs q c = (r, fs1) \<Longrightarrow> fs_docs fs1 = fs_docs fs"
  by (auto simp: applyCursor_def ref_get_def split: option.splits if_splits prod.splits sum.splits
      dest: read_doc_docs)

lemma find_None_iff_path: "find (\<lambda>d. doc_path d = r) ds = None \<longleftrightarrow> r \<notin> doc_path ` set ds"
  by (auto simp: find_None_iff)

lemma lookup_doc_missing:
  "r \<notin> doc_path ` set ds \<Longrightarrow> \<not> snap_exists (lookup_doc ds r)"
  by (simp add: lookup_doc_def find_None_iff_path [THEN iffD2])

lemma lookup_doc_found:
  "snap_exists (lookup_doc ds r) \<Longrightarrow> \<exists>d\<in>set ds. doc_path d = r \<and> lookup_doc ds r = snapshot_of d"
proof -
  have "find (\<lambda>d. doc_path d = r) ds = Some x \<Longrightarrow> x \<in> set ds \<and> doc_path x = r" for x
    by (induction ds) (auto split: if_splits)
  then show "snap_exists (lookup_doc ds r) \<Longrightarrow> ?thesis"
    by (auto simp: lookup_doc_def split: option.splits)
qed

lemma item_of_identity: "carries_identity (item_of d) d"
  by (auto simp: carries_identity_def item_of_def queryData_def fun_eq_iff)

lemma applyCursor_coll: "applyCursor fs q c = (Inr q', fs1) \<Longrightarrow> q_coll q' = q_coll q"
  by (auto simp: applyCursor_def q_startAfter_def q_limit_def
      split: option.splits if_splits prod.splits sum.splits)

lemma collectionQuery_result:
  assumes "collectionQuery fs refStr qcs cur = (Inr items, fs')"
  obtains q fs1 snaps where
    "(case cur of Some c \<Rightarrow> applyCursor fs (applyQueryConstraints (fs_collection refStr) qcs) c
      | None \<Rightarrow> (Inr (applyQueryConstraints (fs_collection refStr) qcs), fs)) = (Inr q, fs1)"
    "q_get fs1 q = (Inr snaps, fs')"
    "items = map (\<lambda>snapshot. (spread (snap_data snapshot))
               (''id'' \<mapsto> JStr (snap_id snapshot), ''ref'' \<mapsto> JStr (snap_ref snapshot))) snaps"
  using assms by (auto simp: collectionQuery_def Let_def split: prod.splits sum.splits)

lemma collectionQuery_items:
  assumes "collectionQuery fs refStr qcs cur = (Inr items, fs')"
  shows "\<exists>page. set page \<subseteq> set (fs_docs fs) \<and> (\<forall>d\<in>set page. doc_coll d = refStr) \<and>
           items = map item_of page"
proof -
  from assms obtain q fs1 snaps where
    built: "(case cur of Some c \<Rightarrow> applyCursor fs (applyQueryConstraints (fs_collection refStr) qcs) c
      | None \<Rightarrow> (Inr (applyQueryConstraints (fs_collection refStr) qcs), fs)) = (Inr q, fs1)"
    and get: "q_get fs1 q = (Inr snaps, fs')"
    and items: "items = map (\<lambda>snapshot. (spread (snap_data snapshot))
                   (''id'' \<mapsto> JStr (snap_id snapshot), ''ref'' \<mapsto> JStr (snap_ref snapshot))) snaps"
    by (rule collectionQuery_result)
  have fs1: "fs_docs fs1 = fs_docs fs" and coll: "q_coll q = refStr"
    using built
    by (cases cur; auto simp: applyQueryConstraints_eq fs_collection_def
          dest: applyCursor_docs applyCursor_coll)+
  from get obtain ds where
    ds: "positioned (q_after q) (matching fs1 (q_coll q) (q_clauses q)) = Some ds"
    and snaps: "snaps = map snapshot_of (bounded (q_bound q) ds)"
    by (auto simp: q_get_def Let_def split: list.splits option.splits)
  have "set ds \<subseteq> set (matching fs1 (q_coll q) (q_clauses q))"
    using ds set_after_doc by (auto simp: positioned_def split: option.splits)
  with set_bounded have sub: "set (bounded (q_bound q) ds) \<subseteq> set (matching fs1 (q_coll q) (q_clauses q))"
    by blast
  with set_matching [of fs1] fs1 have "set (bounded (q_bound q) ds) \<subseteq> set (fs_docs fs)"
    by auto
  moreover from sub coll have "\<forall>d\<in>set (bounded (q_bound q) ds). doc_coll d = refStr"
    by (auto dest: set_matching_coll)
  moreover have "items = map item_of (bounded (q_bound q) ds)"
    by (simp add: items snaps snapshot_of_def spread_def item_of_def)
  ultimately show ?thesis by blast
qed

lemma docQuery_item:
  assumes "docQuery fs refStr t = (Inr (Some item), fs')"
  shows "\<exists>d\<in>set (fs_docs fs). fs_doc refStr = Inr (doc_path d) \<and> item = item_of d"
proof -
  from assms obtain ref where ref: "fs_doc refStr = Inr ref"
    by (cases "fs_doc refStr") (simp_all add: docQuery_def)
  from assms have ex: "snap_exists (lookup_doc (fs_docs fs) ref)"
    and item: "item = (spread (snap_data (lookup_doc (fs_docs fs) ref)))
        (''id'' \<mapsto> JStr (snap_id (lookup_doc (fs_docs fs) ref)),
         ''ref'' \<mapsto> JStr (snap_ref (lookup_doc (fs_docs fs) ref)))"
    by (cases t; auto simp: docQuery_def ref tx_get_def ref_get_def read_doc_def
          split: list.splits option.splits if_splits)+
  from lookup_doc_found [OF ex] obtain d where
    d: "d \<in> set (fs_docs fs)" "doc_path d = ref" "lookup_doc (fs_docs fs) ref = snapshot_of d"
    by blast
  have "item = item_of d"
    by (simp add: item d(3) snapshot_of_def spread_def item_of_def)
  with d ref show ?thesis by auto
qed

lemma cursorQuery_result:
  assumes "cursorQuery fs refStr qcs (Some c) = (Inr (data, c'), fs')"
  shows "collectionQuery fs refStr qcs (Some c) = (Inr data, fs')"
    and "c' = c\<lparr>startAfter := (if length data = 0 then startAfter c
                                else str_prop (data ! (length data - 1)) ''ref''),
                 hasNext := (length data = interval c)\<rparr>"
  using assms by (auto simp: cursorQuery_def Let_def split: prod.splits sum.splits)

lemma cursorQuery_default:
  "cursorQuery fs refStr qcs None = cursorQuery fs refStr qcs (Some default_cursor)"
  by (simp add: cursorQuery_def)

lemma matching_name_order:
  "matching fs path [Sort ''__name__'' None] = collection_docs fs path"
  by (simp add: matching_def collection_docs_def sort_key_id_if_sorted)

lemma q_get_reliable:
  assumes "reliable fs"
  shows "q_get fs (q_limit (q_orderBy (fs_collection path) ''__name__'' None) b)
           = (Inr (map snapshot_of (take b (collection_docs fs path))),
              served fs (QueryRun (length (take b (collection_docs fs path)))))"
  using reliable_no_fault [OF assms]
  by (auto simp: q_get_def q_limit_def q_orderBy_def fs_collection_def positioned_def bounded_def
      matching_name_order Let_def)

lemma batch_commit_reliable:
  assumes "reliable fs"
  shows "batch_commit fs refs = (Inr (), (served fs (BatchWrite refs))\<lparr>fs_docs := remove_docs refs (fs_docs fs)\<rparr>)"
  using reliable_no_fault [OF assms] by (auto simp: batch_commit_def)

lemma filter_out_taken:
  assumes "distinct (map f xs)"
  shows "filter (\<lambda>x. f x \<notin> set (map f (take n xs))) xs = drop n xs"
proof -
  have "distinct (map f (take n xs @ drop n xs))" using assms by simp
  then have disj: "f ` set (take n xs) \<inter> f ` set (drop n xs) = {}"
    by (simp only: map_append distinct_append set_map)
  have "filter (\<lambda>x. f x \<notin> set (map f (take n xs))) (take n xs @ drop n xs)
          = filter (\<lambda>x. f x \<notin> set (map f (take n xs))) (take n xs) @ filter (\<lambda>x. f x \<notin> set (map f (take n xs))) (drop n xs)"
    by (rule filter_append)
  also have "filter (\<lambda>x. f x \<notin> set (map f (take n xs))) (take n xs) = []"
    by (auto simp: filter_empty_conv)
  also have "filter (\<lambda>x. f x \<notin> set (map f (take n xs))) (drop n xs) = drop n xs"
    using disj by (auto simp: filter_id_conv)
  finally show ?thesis by simp
qed

lemma distinct_paths_sub:
  assumes "distinct (map f xs)" "distinct ys" "set ys \<subseteq> set xs"
  shows "distinct (map f ys)"
  using assms by (auto simp: distinct_map intro: inj_on_subset)

lemma collection_docs_distinct:
  "wf_store fs \<Longrightarrow> distinct (map doc_path (collection_docs fs path))"
  unfolding wf_store_def collection_docs_def
  by (rule distinct_paths_sub [where xs = "fs_docs fs"]) (auto simp: distinct_map)

lemma collection_docs_after_round:
  assumes "wf_store fs"
  shows "collection_docs (fs'\<lparr>fs_docs := remove_docs (map doc_path (take b (collection_docs fs path))) (fs_docs fs)\<rparr>) path
           = drop b (collection_docs fs path)"
proof -
  let ?refs = "map doc_path (take b (collection_docs fs path))"
  have "sort_key doc_id (filter (\<lambda>d. doc_coll d = path) (remove_docs ?refs (fs_docs fs)))
          = filter (\<lambda>d. doc_path d \<notin> set ?refs) (collection_docs fs path)"
    by (simp add: remove_docs_def collection_docs_def filter_sort conj_commute)
  also have "\<dots> = drop b (collection_docs fs path)"
    using collection_docs_distinct [OF assms] by (rule filter_out_taken)
  finally show ?thesis by (simp add: collection_docs_def)
qed

lemma other_docs_after_round:
  assumes "wf_store fs"
  shows "filter (\<lambda>d. doc_coll d \<noteq> path) (remove_docs (map doc_path (take b (collection_docs fs path))) (fs_docs fs))
     = filter (\<lambda>d. doc_coll d \<noteq> path) (fs_docs fs)"
proof -
  have "doc_path d \<notin> doc_path ` set (take b (collection_docs fs path))"
    if d: "d \<in> set (fs_docs fs)" "doc_coll d \<noteq> path" for d
  proof
    assume "doc_path d \<in> doc_path ` set (take b (collection_docs fs path))"
    then obtain d' where d': "d' \<in> set (take b (collection_docs fs path))" "doc_path d = doc_path d'"
      by blast
    from d'(1) have in_coll: "d' \<in> set (fs_docs fs)" "doc_coll d' = path"
      by (auto simp: collection_docs_def dest!: in_set_takeD)
    from assms have "inj_on doc_path (set (fs_docs fs))"
      by (simp add: wf_store_def distinct_map)
    then have "d = d'" using d'(2) d(1) in_coll(1) by (rule inj_onD)
    with d(2) in_coll(2) show False by simp
  qed
  then show ?thesis
    by (auto simp: remove_docs_def intro!: filter_cong)
qed

lemma wf_store_remove: "wf_store fs \<Longrightarrow> wf_store (fs'\<lparr>fs_docs := remove_docs refs (fs_docs fs)\<rparr>)"
  by (simp add: wf_store_def remove_docs_def distinct_map_filter)

lemma query_rounds_append: "query_rounds (xs @ ys) = query_rounds xs @ query_rounds ys"
  by (induction xs rule: query_rounds.induct) auto

lemma deleted_refs_append: "deleted_refs (xs @ ys) = deleted_refs xs @ deleted_refs ys"
  by (induction xs rule: deleted_refs.induct) auto

lemma delete_rounds:
  assumes "reliable fs" "wf_store fs" "0 < b"
  shows "\<exists>fs' evs.
      deleteQueryBatch fs (q_limit (q_orderBy (fs_collection path) ''__name__'' None) b) = (Inr (), Some True, fs') \<and>
      collection_docs fs' path = [] \<and>
      filter (\<lambda>d. doc_coll d \<noteq> path) (fs_docs fs') = filter (\<lambda>d. doc_coll d \<noteq> path) (fs_docs fs) \<and>
      fs_log fs' = fs_log fs @ evs \<and>
      deleted_refs evs = map doc_path (collection_docs fs path) \<and>
      length (query_rounds evs) = Suc (ceil_div (length (collection_docs fs path)) b) \<and>
      last (query_rounds evs) = 0"
  using assms
proof (induction "length (collection_docs fs path)" arbitrary: fs rule: less_induct)
  case less
  define q where "q = q_limit (q_orderBy (fs_collection path) ''__name__'' None) b"
  define S where "S = collection_docs fs path"
  define page where "page = take b S"
  define fs1 where "fs1 = served fs (QueryRun (length page))"
  have get: "q_get fs q = (Inr (map snapshot_of page), fs1)"
    unfolding q_def S_def page_def fs1_def using less.prems(1) by (rule q_get_reliable)
  show ?case
  proof (cases "S = []")
    case True
    then have "page = []" by (simp add: page_def)
    then have run: "deleteQueryBatch fs q = (Inr (), Some True, fs1)"
      by (subst deleteQueryBatch.simps) (simp add: get)
    have empty: "collection_docs fs1 path = []"
      using True by (simp add: collection_docs_def fs1_def S_def)
    have log: "fs_log fs1 = fs_log fs @ [QueryRun 0]"
      using \<open>page = []\<close> by (simp add: fs1_def)
    have "ceil_div 0 b = 0" using less.prems(3) by (simp add: ceil_div_def)
    with run empty log True show ?thesis
      unfolding q_def S_def
      by (intro exI [of _ fs1] exI [of _ "[QueryRun 0]"]) (simp add: fs1_def)
  next
    case False
    define refs where "refs = map doc_path page"
    define fs2 where "fs2 = (served fs1 (BatchWrite refs))\<lparr>fs_docs := remove_docs refs (fs_docs fs)\<rparr>"
    have nonempty: "page \<noteq> []" using False less.prems(3) by (simp add: page_def)
    have rel1: "reliable fs1" unfolding fs1_def using less.prems(1) by (rule reliable_served)
    have commit: "batch_commit fs1 refs = (Inr (), fs2)"
      using batch_commit_reliable [OF rel1, of refs] by (simp add: fs2_def fs1_def)
    have rel2: "reliable fs2"
      unfolding fs2_def using rel1 by (simp add: reliable_docs_update reliable_served)
    have wf2: "wf_store fs2" unfolding fs2_def using less.prems(2) by (rule wf_store_remove)
    have S2: "collection_docs fs2 path = drop b S"
      unfolding fs2_def refs_def page_def S_def using less.prems(2) by (rule collection_docs_after_round)
    have smaller: "length (collection_docs fs2 path) < length (collection_docs fs path)"
      unfolding S2 using False less.prems(3) by (simp add: S_def)
    from less.hyps [OF smaller rel2 wf2 less.prems(3)] obtain fs' evs where
      rec: "deleteQueryBatch fs2 q = (Inr (), Some True, fs')"
      and empty: "collection_docs fs' path = []"
      and others: "filter (\<lambda>d. doc_coll d \<noteq> path) (fs_docs fs') = filter (\<lambda>d. doc_coll d \<noteq> path) (fs_docs fs2)"
      and log: "fs_log fs' = fs_log fs2 @ evs"
      and del: "deleted_refs evs = map doc_path (collection_docs fs2 path)"
      and rounds: "length (query_rounds evs) = Suc (ceil_div (length (collection_docs fs2 path)) b)"
      and final: "last (query_rounds evs) = 0"
      unfolding q_def by blast
    have batch: "foldl batch_delete batch_new (map (snap_ref \<circ> snapshot_of) page) = refs"
      by (simp add: collect_batch batch_new_def snapshot_of_def comp_def refs_def)
    have run: "deleteQueryBatch fs q = (Inr (), Some True, fs')"
      using nonempty
      by (subst deleteQueryBatch.simps) (simp add: get batch commit rec)
    have rest: "filter (\<lambda>d. doc_coll d \<noteq> path) (fs_docs fs') = filter (\<lambda>d. doc_coll d \<noteq> path) (fs_docs fs)"
      unfolding others
      using other_docs_after_round [OF less.prems(2), of path b]
      by (simp add: fs2_def refs_def page_def S_def)
    define evs' where "evs' = QueryRun (length page) # BatchWrite refs # evs"
    have log': "fs_log fs' = fs_log fs @ evs'"
      by (simp add: log fs2_def fs1_def evs'_def)
    have "refs @ map doc_path (drop b S) = map doc_path S"
      unfolding refs_def page_def by (simp only: append_take_drop_id flip: map_append)
    then have del': "deleted_refs evs' = map doc_path (collection_docs fs path)"
      by (simp add: evs'_def del S2 S_def)
    have "length S - b = length (drop b S)" by simp
    then have rounds': "length (query_rounds evs') = Suc (ceil_div (length (collection_docs fs path)) b)"
      using False less.prems(3) ceil_div_step [of b "length S"]
      by (simp add: evs'_def rounds S2 S_def)
    have "query_rounds evs \<noteq> []" using rounds by auto
    then have final': "last (query_rounds evs') = 0"
      using final by (simp add: evs'_def)
    from run empty rest log' del' rounds' final' show ?thesis
      unfolding q_def by (intro exI [of _ fs'] exI [of _ evs'] conjI)
  qed
qed

section \<open>queryData\<close>

text \<open>
  Claim C7. For every result item \<open>x\<close>, \<^verbatim>\<open>queryData(x)\<close> is \<open>x\<close> with exactly the
  \<^verbatim>\<open>id\<close> and \<^verbatim>\<open>ref\<close> fields removed and every other field unchanged, and
  \<^verbatim>\<open>queryData\<close> applied to its own output returns it unchanged.
\<close>

theorem queryData_strips_identity:
  "queryData x = x |` (- {''id'', ''ref''})
     \<and> dom (queryData x) = dom x - {''id'', ''ref''}
     \<and> queryData (queryData x) = queryData x"
  by (auto simp: queryData_def restrict_map_def fun_eq_iff split: if_splits)

section \<open>Results carry the snapshot's identity\<close>

text \<open>
  Claim C6. Every item returned by \<^verbatim>\<open>docQuery\<close>, \<^verbatim>\<open>collectionQuery\<close> or
  \<^verbatim>\<open>cursorQuery\<close> is built from a document of the store (of the queried path or
  collection) and carries that document's identity: its \<^verbatim>\<open>id\<close> is the document's
  identifier and its \<^verbatim>\<open>ref\<close> the document's reference path, whatever the payload holds
  under these two names; all other fields are the payload's. For \<^verbatim>\<open>docQuery\<close> the
  document is the one whose reference path is the canonical form of the path passed in.
\<close>

theorem results_carry_snapshot_identity:
  "(\<forall>item fs'. docQuery fs refStr t = (Inr (Some item), fs') \<longrightarrow>
      (\<exists>d\<in>set (fs_docs fs). fs_doc refStr = Inr (doc_path d) \<and> carries_identity item d))
   \<and> (\<forall>items fs'. collectionQuery fs refStr qcs cur = (Inr items, fs') \<longrightarrow>
      (\<forall>item\<in>set items. \<exists>d\<in>set (fs_docs fs). doc_coll d = refStr \<and> carries_identity item d))
   \<and> (\<forall>items c' fs'. cursorQuery fs refStr qcs cur = (Inr (items, c'), fs') \<longrightarrow>
      (\<forall>item\<in>set items. \<exists>d\<in>set (fs_docs fs). doc_coll d = refStr \<and> carries_identity item d))"
proof (intro conjI allI impI)
  fix item fs'
  assume "docQuery fs refStr t = (Inr (Some item), fs')"
  from docQuery_item [OF this]
  show "\<exists>d\<in>set (fs_docs fs). fs_doc refStr = Inr (doc_path d) \<and> carries_identity item d"
    using item_of_identity by blast
next
  fix items fs'
  assume "collectionQuery fs refStr qcs cur = (Inr items, fs')"
  from collectionQuery_items [OF this]
  show "\<forall>item\<in>set items. \<exists>d\<in>set (fs_docs fs). doc_coll d = refStr \<and> carries_identity item d"
    using item_of_identity by fastforce
next
  fix items c' fs'
  assume "cursorQuery fs refStr qcs cur = (Inr (items, c'), fs')"
  then obtain c where "cursorQuery fs refStr qcs (Some c) = (Inr (items, c'), fs')"
    by (cases cur) (auto simp: cursorQuery_default)
  from collectionQuery_items [OF cursorQuery_result(1) [OF this]]
  show "\<forall>item\<in>set items. \<exists>d\<in>set (fs_docs fs). doc_coll d = refStr \<and> carries_identity item d"
    using item_of_identity by fastforce
qed

text \<open>
  The document \<^verbatim>\<open>items/a\<close> of the example store has payload fields \<^verbatim>\<open>id\<close> and
  \<^verbatim>\<open>ref\<close>; the item \<^verbatim>\<open>docQuery\<close> returns for it carries the identifier \<^verbatim>\<open>a\<close> and the
  path \<^verbatim>\<open>items/a\<close>.
\<close>

theorem results_carry_snapshot_identity_witness:
  "doc_data item_a ''id'' = Some (JStr ''payload-id'') \<and> doc_data item_a ''ref'' = Some (JNum 7) \<and>
   (\<exists>item fs'. docQuery example_store ''items/a'' None = (Inr (Some item), fs') \<and>
      item ''id'' = Some (JStr ''a'') \<and> item ''ref'' = Some (JStr ''items/a'') \<and>
      item ''n'' = Some (JNum 1))"
proof -
  obtain item fs' where run: "docQuery example_store ''items/a'' None = (Inr (Some item), fs')"
    by (simp add: example_defs engine_defs util_defs)
  with results_carry_snapshot_identity [of example_store "''items/a''" None] obtain d where
    d: "d \<in> set (fs_docs example_store)" "fs_doc ''items/a'' = Inr (doc_path d)"
      "carries_identity item d"
    by blast
  have "fs_doc ''items/a'' = Inr ''items/a''"
    by (simp add: fs_doc_def)
  with d(1,2) have "d = item_a"
    by (auto simp: example_defs doc_path_def)
  with d(3) have "item ''id'' = Some (JStr ''a'')" "item ''ref'' = Some (JStr ''items/a'')"
    "queryData item ''n'' = queryData (doc_data item_a) ''n''"
    by (simp_all add: carries_identity_def item_a_def doc_path_def)
  then show ?thesis
    using run by (simp add: queryData_def item_a_def)
qed

section \<open>docQuery on a missing document\<close>

text \<open>
  Claim C8, as amended. For every path string that is a well-formed document path (the
  client accepts it: not empty, no \<^verbatim>\<open>//\<close>, an even number of segments) and that resolves to
  no document (the engine serves the fetch and the store holds no document at the
  reference), \<^verbatim>\<open>docQuery\<close> returns \<^verbatim>\<open>null\<close> rather than failing, with a transaction handle
  and without one.
\<close>

theorem docQuery_missing_is_null:
  assumes "fs_doc refStr = Inr ref" and "ref \<notin> doc_path ` set (fs_docs fs)"
    and "call_succeeds fs"
  shows "docQuery fs refStr t = (Inr None, served fs (DocRead t ref))"
  using assms lookup_doc_missing [of ref "fs_docs fs"]
  by (cases t)
     (auto simp: docQuery_def call_succeeds_def tx_get_def ref_get_def read_doc_def
        split: list.splits option.splits)

theorem docQuery_missing_is_null_witness:
  "fs_doc ''items/abc'' = Inr ''items/abc'' \<and>
   ''items/abc'' \<notin> doc_path ` set (fs_docs example_store) \<and> call_succeeds example_store \<and>
   fst (docQuery example_store ''items/abc'' None) = Inr None \<and>
   fst (docQuery example_store ''items/abc'' (Some (Transaction 1))) = Inr None"
proof -
  have ref: "fs_doc ''items/abc'' = Inr ''items/abc''"
    by (simp add: fs_doc_def)
  have missing: "''items/abc'' \<notin> doc_path ` set (fs_docs example_store)"
    by (simp add: example_defs doc_path_def)
  have ok: "call_succeeds example_store"
    by (simp add: example_defs call_succeeds_def)
  show ?thesis
    using ref missing ok docQuery_missing_is_null [OF ref missing ok, of None]
      docQuery_missing_is_null [OF ref missing ok, of "Some (Transaction 1)"]
    by simp
qed

text \<open>
  The claim as first stated covers every path string. The path \<^verbatim>\<open>items\<close> resolves to no
  document of the example store, but it has one segment and is not a document path:
  \<^verbatim>\<open>firestore.doc\<close> throws, and \<^verbatim>\<open>docQuery\<close> is rejected instead of returning \<^verbatim>\<open>null\<close>,
  with a transaction handle and without one, before any call reaches the engine.
\<close>

theorem docQuery_malformed_path_counterexample:
  "''items'' \<notin> doc_path ` set (fs_docs example_store) \<and> call_succeeds example_store \<and>
   docQuery example_store ''items'' None = (Inl InvalidPath, example_store) \<and>
   docQuery example_store ''items'' (Some (Transaction 1)) = (Inl InvalidPath, example_store)"
  by (simp add: docQuery_def fs_doc_def call_succeeds_def example_defs doc_path_def)

text \<open>
  A leading slash is ignored: \<^verbatim>\<open>/items/a\<close> resolves to the stored document \<^verbatim>\<open>items/a\<close>.
\<close>

lemma docQuery_leading_slash:
  "fs_doc ''/items/a'' = Inr ''items/a'' \<and>
   fst (docQuery example_store ''/items/a'' None) = Inr (Some (item_of item_a))"
  by (simp add: docQuery_def fs_doc_def example_defs engine_defs spread_def item_of_def)

section \<open>Cursor advancement\<close>

lemma cursor_after_interval:
  "cursor_after n fs refStr qcs c = (Inr c', fs') \<Longrightarrow> interval c' = interval c"
proof (induction n arbitrary: fs c)
  case 0
  then show ?case by simp
next
  case (Suc n)
  from Suc.prems obtain data c1 fs1 where
    step: "cursorQuery fs refStr qcs (Some c) = (Inr (data, c1), fs1)"
    and rest: "cursor_after n fs1 refStr qcs c1 = (Inr c', fs')"
    by (auto split: prod.splits sum.splits)
  from cursorQuery_result(2) [OF step] have "interval c1 = interval c" by simp
  with Suc.IH [OF rest] show ?case by simp
qed

text \<open>
  Claim C10. The cursor returned by \<^verbatim>\<open>cursorQuery\<close> has the page size of the cursor
  passed in, and so has the cursor after any number of successive calls that pass each
  returned cursor back in.
\<close>

theorem cursorQuery_keeps_interval:
  "(\<forall>data c' fs'. cursorQuery fs refStr qcs (Some c) = (Inr (data, c'), fs') \<longrightarrow>
      interval c' = interval c)
   \<and> (\<forall>c' fs'. cursor_after n fs refStr qcs c = (Inr c', fs') \<longrightarrow> interval c' = interval c)"
proof (intro conjI allI impI)
  fix data c' fs'
  assume "cursorQuery fs refStr qcs (Some c) = (Inr (data, c'), fs')"
  from cursorQuery_result(2) [OF this] show "interval c' = interval c" by simp
next
  fix c' fs'
  assume "cursor_after n fs refStr qcs c = (Inr c', fs')"
  then show "interval c' = interval c" by (rule cursor_after_interval)
qed

theorem cursorQuery_keeps_interval_witness:
  "\<exists>data c' fs' c'' fs''.
     cursorQuery example_store ''items'' [] (Some \<lparr>interval = 2, hasNext = True, startAfter = None\<rparr>)
       = (Inr (data, c'), fs') \<and> interval c' = 2 \<and>
     cursor_after 2 example_store ''items'' [] \<lparr>interval = 2, hasNext = True, startAfter = None\<rparr>
       = (Inr c'', fs'') \<and> interval c'' = 2"
proof -
  let ?c = "\<lparr>interval = 2, hasNext = True, startAfter = None\<rparr>"
  obtain data c' fs' where one: "cursorQuery example_store ''items'' [] (Some ?c) = (Inr (data, c'), fs')"
    by (simp add: example_defs engine_defs util_defs)
  obtain c'' fs'' where two: "cursor_after 2 example_store ''items'' [] ?c = (Inr c'', fs'')"
    by (simp add: numeral_2_eq_2 example_defs engine_defs util_defs)
  from cursorQuery_keeps_interval [of example_store "''items''" "[]" ?c 2] one two
  have "interval c' = 2" "interval c'' = 2" by auto
  with one two show ?thesis by blast
qed

text \<open>
  Claim C2, as amended. For every previous cursor and every page \<^verbatim>\<open>cursorQuery\<close>
  returns: the returned \<^verbatim>\<open>hasNext\<close> is true exactly when the page length equals the
  previous cursor's \<^verbatim>\<open>interval\<close>; for an empty page the returned \<^verbatim>\<open>startAfter\<close> is the
  previous one unchanged, and \<^verbatim>\<open>hasNext\<close> is false unless the previous \<^verbatim>\<open>interval\<close> is
  0; for a non-empty page the returned \<^verbatim>\<open>startAfter\<close> is the \<^verbatim>\<open>ref\<close> of the page's last
  item.
\<close>

theorem cursorQuery_advances_cursor:
  assumes "cursorQuery fs refStr qcs (Some c) = (Inr (data, c'), fs')"
  shows "(hasNext c' \<longleftrightarrow> length data = interval c)
       \<and> (data = [] \<longrightarrow> startAfter c' = startAfter c \<and> (hasNext c' \<longleftrightarrow> interval c = 0))
       \<and> (data \<noteq> [] \<longrightarrow> startAfter c' \<noteq> None \<and>
             last data ''ref'' = map_option JStr (startAfter c'))"
proof -
  note c' = cursorQuery_result(2) [OF assms]
  from collectionQuery_items [OF cursorQuery_result(1) [OF assms]] obtain page where
    items: "data = map item_of page"
    by blast
  show ?thesis
  proof (cases "data = []")
    case True
    then show ?thesis by (auto simp: c')
  next
    case False
    then have "page \<noteq> []" using items by auto
    then have "last data ''ref'' = Some (JStr (doc_path (last page)))"
      by (simp add: items last_map item_of_def)
    with False show ?thesis
      by (simp add: c' str_prop_def last_conv_nth)
  qed
qed

theorem cursorQuery_advances_cursor_witness:
  "\<exists>data c' fs'.
     cursorQuery example_store ''items'' [] (Some \<lparr>interval = 2, hasNext = True, startAfter = None\<rparr>)
       = (Inr (data, c'), fs') \<and>
     length data = 2 \<and> hasNext c' \<and> startAfter c' = Some ''items/b'' \<and>
     last data ''ref'' = Some (JStr ''items/b'')"
proof -
  let ?c = "\<lparr>interval = 2, hasNext = True, startAfter = None\<rparr>"
  obtain data c' fs' where run: "cursorQuery example_store ''items'' [] (Some ?c) = (Inr (data, c'), fs')"
    by (simp add: example_defs engine_defs util_defs)
  then have data: "length data = 2" "last data ''ref'' = Some (JStr ''items/b'')"
    by (auto simp: example_defs engine_defs util_defs)
  from cursorQuery_advances_cursor [OF run] data
  have "hasNext c'" "startAfter c' = Some ''items/b''"
    by auto
  with run data show ?thesis by blast
qed

text \<open>
  The claim as first stated says \<^verbatim>\<open>hasNext\<close> is false after an empty page. With a
  cursor of \<^verbatim>\<open>interval\<close> 0 on an empty collection the page is empty and the returned
  cursor has \<^verbatim>\<open>hasNext = true\<close>.
\<close>

theorem cursorQuery_empty_page_counterexample:
  "fst (cursorQuery (store_of [] []) ''items'' []
          (Some \<lparr>interval = 0, hasNext = False, startAfter = None\<rparr>))
     = Inr ([], \<lparr>interval = 0, hasNext = True, startAfter = None\<rparr>)"
  by (simp add: example_defs engine_defs util_defs)

section \<open>deleteCollection\<close>

text \<open>
  Claim C1, as amended. For every collection of \<open>N\<close> records and every batch size
  \<open>b > 0\<close>, on a store with one document per path and an engine that fails no call,
  \<^verbatim>\<open>deleteCollection(path, b)\<close> issues exactly \<open>\<lceil>N / b\<rceil> + 1\<close> query rounds, the last of
  which returns no record; the batch writes delete each record of the collection exactly
  once (their references, in order, are the collection's, without repetition); the
  collection is empty afterwards while the documents of other collections are untouched;
  and the returned promise resolves to \<^verbatim>\<open>true\<close>.
\<close>

theorem deleteCollection_empties_collection:
  assumes "reliable fs" and "wf_store fs" and "0 < b"
  shows "\<exists>fs' evs.
      deleteCollection fs path b = (Resolved True, fs') \<and>
      fs_log fs' = fs_log fs @ evs \<and>
      length (query_rounds evs) = ceil_div (length (collection_docs fs path)) b + 1 \<and>
      last (query_rounds evs) = 0 \<and>
      deleted_refs evs = map doc_path (collection_docs fs path) \<and>
      distinct (deleted_refs evs) \<and>
      collection_docs fs' path = [] \<and>
      filter (\<lambda>d. doc_coll d \<noteq> path) (fs_docs fs') = filter (\<lambda>d. doc_coll d \<noteq> path) (fs_docs fs)"
proof -
  from delete_rounds [OF assms, of path] obtain fs' evs where
    run: "deleteQueryBatch fs (q_limit (q_orderBy (fs_collection path) ''__name__'' None) b)
            = (Inr (), Some True, fs')"
    and empty: "collection_docs fs' path = []"
    and rest: "filter (\<lambda>d. doc_coll d \<noteq> path) (fs_docs fs') = filter (\<lambda>d. doc_coll d \<noteq> path) (fs_docs fs)"
    and log: "fs_log fs' = fs_log fs @ evs"
    and del: "deleted_refs evs = map doc_path (collection_docs fs path)"
    and rounds: "length (query_rounds evs) = Suc (ceil_div (length (collection_docs fs path)) b)"
    and final: "last (query_rounds evs) = 0"
    by blast
  have "deleteCollection fs path b = (Resolved True, fs')"
    by (simp add: deleteCollection_def run)
  moreover have "distinct (deleted_refs evs)"
    unfolding del using assms(2) by (rule collection_docs_distinct)
  ultimately show ?thesis
    using empty rest log del rounds final by auto
qed

theorem deleteCollection_empties_collection_witness:
  "reliable example_store \<and> wf_store example_store \<and> (0::nat) < 2 \<and>
   length (collection_docs example_store ''items'') = 3 \<and> ceil_div 3 2 = 2 \<and>
   (\<exists>fs' evs.
      deleteCollection example_store ''items'' 2 = (Resolved True, fs') \<and>
      fs_log fs' = fs_log example_store @ evs \<and>
      length (query_rounds evs) = 3 \<and>
      last (query_rounds evs) = 0 \<and>
      deleted_refs evs = [''items/a'', ''items/b'', ''items/c''] \<and>
      collection_docs fs' ''items'' = [] \<and>
      fs_docs fs' = [note_x])"
proof -
  have rel: "reliable example_store" and wf: "wf_store example_store"
    by (simp_all add: example_defs reliable_def wf_store_def doc_path_def)
  have docs: "collection_docs example_store ''items'' = [item_a, item_b, item_c]"
    by (simp add: example_defs collection_docs_def)
  have others: "filter (\<lambda>d. doc_coll d \<noteq> ''items'') (fs_docs example_store) = [note_x]"
    by (simp add: example_defs)
  have paths: "map doc_path [item_a, item_b, item_c] = [''items/a'', ''items/b'', ''items/c'']"
    by (simp add: example_defs doc_path_def)
  have ceil: "ceil_div 3 2 = 2"
    by (simp add: ceil_div_def)
  from deleteCollection_empties_collection [OF rel wf, of 2 "''items''"] obtain fs' evs where
    run: "deleteCollection example_store ''items'' 2 = (Resolved True, fs')"
    and log: "fs_log fs' = fs_log example_store @ evs"
    and rounds: "length (query_rounds evs) = ceil_div (length (collection_docs example_store ''items'')) 2 + 1"
    and final: "last (query_rounds evs) = 0"
    and del: "deleted_refs evs = map doc_path (collection_docs example_store ''items'')"
    and empty: "collection_docs fs' ''items'' = []"
    and rest: "filter (\<lambda>d. doc_coll d \<noteq> ''items'') (fs_docs fs')
                 = filter (\<lambda>d. doc_coll d \<noteq> ''items'') (fs_docs example_store)"
    by auto
  from empty have "filter (\<lambda>d. doc_coll d = ''items'') (fs_docs fs') = []"
    by (simp add: collection_docs_def flip: length_0_conv)
  then have "filter (\<lambda>d. doc_coll d \<noteq> ''items'') (fs_docs fs') = fs_docs fs'"
    by (simp add: filter_empty_conv filter_id_conv)
  with rest others have remaining: "fs_docs fs' = [note_x]" by simp
  have size: "length (collection_docs example_store ''items'') = 3"
    by (simp add: docs)
  have rounds': "length (query_rounds evs) = 3"
    by (simp add: rounds size ceil)
  have del': "deleted_refs evs = [''items/a'', ''items/b'', ''items/c'']"
    by (simp only: del docs paths)
  from rel wf size ceil run log rounds' final del' empty remaining show ?thesis
    by (intro conjI exI [of _ fs'] exI [of _ evs]) simp_all
qed

text \<open>
  The claim as first stated covers every batch size. With batch size 0 the first query
  returns no record, so the promise resolves to \<^verbatim>\<open>true\<close> after one round and the three
  records of the collection are still there.
\<close>

theorem deleteCollection_batch_zero_counterexample:
  "fst (deleteCollection example_store ''items'' 0) = Resolved True \<and>
   query_rounds (fs_log (snd (deleteCollection example_store ''items'' 0))) = [0] \<and>
   collection_docs (snd (deleteCollection example_store ''items'' 0)) ''items''
     = [item_a, item_b, item_c]"
proof -
  have "deleteCollection example_store ''items'' 0
          = (Resolved True, served example_store (QueryRun 0))"
    by (simp add: deleteCollection_def deleteQueryBatch.simps example_defs engine_defs)
  then show ?thesis
    by (simp add: example_defs collection_docs_def)
qed

text \<open>
  Claim C4 says that a failing fetch or commit rejects the promise of
  \<^verbatim>\<open>deleteCollection\<close> in any round. The store \<open>flaky_store\<close> holds two records
  and its engine fails its third call, the fetch of the second round (batch size 1): the
  first round has deleted \<^verbatim>\<open>items/a\<close>, and the promise is neither rejected nor
  resolved. The rejection of the second round belongs to a promise nobody listens to: only
  the first call of \<^verbatim>\<open>_deleteQueryBatch\<close> has \<^verbatim>\<open>.catch(reject)\<close> attached.
\<close>

theorem deleteCollection_later_failure_pending:
  "fst (deleteCollection flaky_store ''items'' 1) = Pending \<and>
   fs_log (snd (deleteCollection flaky_store ''items'' 1))
     = [QueryRun 1, BatchWrite [''items/a''], Fault (EngineFailure ''unavailable'')] \<and>
   fs_docs (snd (deleteCollection flaky_store ''items'' 1)) = [item_b]"
  by (simp add: deleteCollection_def deleteQueryBatch.simps flaky_store_def
      example_defs engine_defs)

text \<open>A failure in the first round does reject the promise, with the engine's error.\<close>

lemma deleteCollection_first_fetch_fails:
  assumes "fs_faults fs = Some e # rest"
  shows "fst (deleteCollection fs path b) = Rejected e"
  using assms by (simp add: deleteCollection_def deleteQueryBatch.simps [of fs] q_get_def)

text \<open>
  In general the promise is rejected exactly when the first round fails: when its fetch
  fails, or when it fetched a non-empty page and its commit fails. No failure of a later
  round rejects it.
\<close>

lemma deleteCollection_rejected_iff:
  "fst (deleteCollection fs path b) = Rejected e \<longleftrightarrow>
     (case q_get fs (q_limit (q_orderBy (fs_collection path) ''__name__'' None) b) of
        (Inl e', fs1) \<Rightarrow> e' = e
      | (Inr snapshot, fs1) \<Rightarrow>
          snapshot \<noteq> [] \<and>
          fst (batch_commit fs1 (foldl batch_delete batch_new (map snap_ref snapshot))) = Inl e)"
  by (subst deleteCollection_def, subst deleteQueryBatch.simps)
     (auto simp: Let_def split: prod.splits sum.splits option.splits)

section \<open>_applyCursor\<close>

lemma after_doc_split:
  "after_doc r ds = Some ys \<Longrightarrow>
     \<exists>before d. ds = before @ d # ys \<and> doc_path d = r \<and> r \<notin> doc_path ` set before"
proof (induction ds)
  case Nil
  then show ?case by simp
next
  case (Cons x ds)
  show ?case
  proof (cases "doc_path x = r")
    case True
    with Cons.prems have "x # ds = [] @ x # ys" by simp
    with True show ?thesis by force
  next
    case False
    with Cons.prems have "after_doc r ds = Some ys" by simp
    from Cons.IH [OF this] obtain before d where
      "ds = before @ d # ys" "doc_path d = r" "r \<notin> doc_path ` set before"
      by blast
    with False have "x # ds = (x # before) @ d # ys \<and> doc_path d = r \<and> r \<notin> doc_path ` set (x # before)"
      by auto
    then show ?thesis by blast
  qed
qed

lemma applyCursor_query:
  assumes "applyCursor fs query cursor = (Inr q', fs')"
  shows "q_coll q' = q_coll query" and "q_clauses q' = q_clauses query"
    and "q_bound q' = (if interval cursor = 0 then q_bound query else Some (interval cursor))"
    and "q_after q' =
           (case startAfter cursor of
              None \<Rightarrow> q_after query
            | Some r \<Rightarrow>
                if r = [] then q_after query
                else (case fs_doc r of
                        Inr ref \<Rightarrow> Some (lookup_doc (fs_docs fs) ref)
                      | Inl e \<Rightarrow> None))"
    and "fs_docs fs' = fs_docs fs" and "fs_filter fs' = fs_filter fs" and "fs_rank fs' = fs_rank fs"
  using assms
  by (auto simp: applyCursor_def ref_get_def read_doc_def q_startAfter_def q_limit_def
      split: option.splits if_splits prod.splits sum.splits list.splits)

lemma applyCursor_ref:
  assumes "applyCursor fs query cursor = (Inr q', fs')"
    and "startAfter cursor = Some r" and "r \<noteq> []"
  shows "\<exists>ref. fs_doc r = Inr ref \<and> q_after q' = Some (lookup_doc (fs_docs fs) ref)"
proof (cases "fs_doc r")
  case (Inl e)
  with assms show ?thesis by (simp add: applyCursor_def)
next
  case (Inr ref)
  with applyCursor_query(4) [OF assms(1)] assms(2,3) show ?thesis by simp
qed

lemma lookup_doc_ref [simp]: "snap_ref (lookup_doc ds r) = r"
proof -
  have "find (\<lambda>d. doc_path d = r) ds = Some x \<Longrightarrow> doc_path x = r" for x
    by (induction ds) (auto split: if_splits)
  then show ?thesis
    by (auto simp: lookup_doc_def snapshot_of_def split: option.splits)
qed

lemma matching_cong:
  assumes "fs_docs fs' = fs_docs fs" "fs_filter fs' = fs_filter fs" "fs_rank fs' = fs_rank fs"
  shows "matching fs' coll cs = matching fs coll cs"
proof -
  have "apply_clause fs' c ds = apply_clause fs c ds" for c ds
    using assms by (cases c) simp_all
  then have "apply_clause fs' = apply_clause fs" by (intro ext)
  with assms(1) show ?thesis by (simp add: matching_def)
qed

lemma q_get_page:
  assumes "q_get fs q = (Inr snaps, fs')"
  obtains ds where "positioned (q_after q) (matching fs (q_coll q) (q_clauses q)) = Some ds"
    and "snaps = map snapshot_of (bounded (q_bound q) ds)"
  using assms by (auto simp: q_get_def Let_def split: list.splits option.splits)

text \<open>
  Claim C5, as amended. For every query and every cursor, the query \<^verbatim>\<open>_applyCursor\<close>
  produces has a limit of \<^verbatim>\<open>cursor.interval\<close>, and so returns at most that many results,
  when the interval is not 0; when it is 0 no limit is applied and the limit of the incoming
  query is kept. When the cursor's \<^verbatim>\<open>startAfter\<close> is set (a non-empty path), the path is
  a document path, the query starts after the snapshot fetched for its reference, and its
  results are taken from the records that come strictly after the referenced record in
  result order.
\<close>

theorem applyCursor_bounds_and_positions:
  assumes "applyCursor fs query cursor = (Inr q', fs')"
  shows "q_bound q' = (if interval cursor = 0 then q_bound query else Some (interval cursor))
     \<and> (interval cursor \<noteq> 0 \<longrightarrow>
          (\<forall>snaps fs''. q_get fs' q' = (Inr snaps, fs'') \<longrightarrow> length snaps \<le> interval cursor))
     \<and> (\<forall>r. startAfter cursor = Some r \<and> r \<noteq> [] \<longrightarrow>
          (\<exists>ref. fs_doc r = Inr ref \<and>
             q_after q' = Some (lookup_doc (fs_docs fs) ref) \<and>
             (\<forall>snaps fs''. q_get fs' q' = (Inr snaps, fs'') \<longrightarrow>
                (\<exists>before d rest.
                   matching fs (q_coll query) (q_clauses query) = before @ d # rest \<and>
                   doc_path d = ref \<and> ref \<notin> doc_path ` set before \<and>
                   snaps = map snapshot_of (bounded (q_bound q') rest)))))"
proof (intro conjI allI impI)
  show bound: "q_bound q' = (if interval cursor = 0 then q_bound query else Some (interval cursor))"
    by (rule applyCursor_query(3) [OF assms])
  {
    fix snaps fs''
    assume nonzero: "interval cursor \<noteq> 0" and get: "q_get fs' q' = (Inr snaps, fs'')"
    from get obtain ds where "snaps = map snapshot_of (bounded (q_bound q') ds)"
      by (rule q_get_page)
    with bound nonzero show "length snaps \<le> interval cursor"
      by (simp add: bounded_def)
  }
  {
    fix r
    assume set: "startAfter cursor = Some r \<and> r \<noteq> []"
    with applyCursor_ref [OF assms, of r] obtain ref where
      ref: "fs_doc r = Inr ref" and after: "q_after q' = Some (lookup_doc (fs_docs fs) ref)"
      by blast
    have same: "matching fs' (q_coll q') (q_clauses q') = matching fs (q_coll query) (q_clauses query)"
      using applyCursor_query(1,2) [OF assms] matching_cong [OF applyCursor_query(5,6,7) [OF assms]]
      by simp
    have "\<exists>before d rest.
            matching fs (q_coll query) (q_clauses query) = before @ d # rest \<and>
            doc_path d = ref \<and> ref \<notin> doc_path ` set before \<and>
            snaps = map snapshot_of (bounded (q_bound q') rest)"
      if get: "q_get fs' q' = (Inr snaps, fs'')" for snaps fs''
    proof -
      from get obtain ds where
        pos: "positioned (q_after q') (matching fs' (q_coll q') (q_clauses q')) = Some ds"
        and snaps: "snaps = map snapshot_of (bounded (q_bound q') ds)"
        by (rule q_get_page)
      from pos have "after_doc ref (matching fs (q_coll query) (q_clauses query)) = Some ds"
        by (simp add: positioned_def after same)
      from after_doc_split [OF this] snaps show ?thesis by blast
    qed
    with ref after
    show "\<exists>ref. fs_doc r = Inr ref \<and>
            q_after q' = Some (lookup_doc (fs_docs fs) ref) \<and>
            (\<forall>snaps fs''. q_get fs' q' = (Inr snaps, fs'') \<longrightarrow>
               (\<exists>before d rest.
                  matching fs (q_coll query) (q_clauses query) = before @ d # rest \<and>
                  doc_path d = ref \<and> ref \<notin> doc_path ` set before \<and>
                  snaps = map snapshot_of (bounded (q_bound q') rest)))"
      by blast
  }
qed

theorem applyCursor_bounds_and_positions_witness:
  "\<exists>q' fs' snaps fs''.
     applyCursor example_store (fs_collection ''items'')
       \<lparr>interval = 1, hasNext = True, startAfter = Some ''items/a''\<rparr> = (Inr q', fs') \<and>
     q_bound q' = Some 1 \<and> q_after q' = Some (snapshot_of item_a) \<and>
     q_get fs' q' = (Inr snaps, fs'') \<and> length snaps \<le> 1 \<and>
     snaps = [snapshot_of item_b]"
proof -
  let ?c = "\<lparr>interval = 1, hasNext = True, startAfter = Some ''items/a''\<rparr>"
  obtain q' fs' where run: "applyCursor example_store (fs_collection ''items'') ?c = (Inr q', fs')"
    by (simp add: example_defs engine_defs util_defs)
  then obtain snaps fs'' where get: "q_get fs' q' = (Inr snaps, fs'')"
    and page: "snaps = [snapshot_of item_b]"
    by (auto simp: example_defs engine_defs util_defs)
  have ref: "fs_doc ''items/a'' = Inr ''items/a''"
    by (simp add: fs_doc_def)
  have found: "lookup_doc (fs_docs example_store) ''items/a'' = snapshot_of item_a"
    by (simp add: example_defs lookup_doc_def doc_path_def)
  from applyCursor_bounds_and_positions [OF run] get found ref
  have "q_bound q' = Some 1" "length snaps \<le> 1" "q_after q' = Some (snapshot_of item_a)"
    by auto
  with run get page show ?thesis by blast
qed

text \<open>
  The claim as first stated includes cursors whose \<^verbatim>\<open>interval\<close> is 0. For such a cursor
  \<^verbatim>\<open>_applyCursor\<close> returns the query as it got it, with no limit, and the query returns
  all three records of the collection.
\<close>

theorem applyCursor_interval_zero_counterexample:
  "fst (applyCursor example_store (fs_collection ''items'')
          \<lparr>interval = 0, hasNext = True, startAfter = None\<rparr>) = Inr (fs_collection ''items'') \<and>
   q_bound (fs_collection ''items'') = None \<and>
   fst (q_get example_store (fs_collection ''items''))
     = Inr [snapshot_of item_a, snapshot_of item_b, snapshot_of item_c]"
  by (simp add: example_defs engine_defs util_defs)

section \<open>A pagination session retrieves the collection\<close>

lemma ceil_div_cases:
  assumes "0 < p"
  shows "ceil_div n p = (if p dvd n then n div p else Suc (n div p))"
proof -
  define k r where "k = n div p" and "r = n mod p"
  have n: "n = k * p + r" and r: "r < p"
    using assms by (simp_all add: k_def r_def)
  show ?thesis
  proof (cases "r = 0")
    case True
    then have "p dvd n" by (simp add: r_def dvd_eq_mod_eq_0)
    moreover have "n + p - 1 = k * p + (p - 1)"
      using True assms by (simp add: n)
    then have "ceil_div n p = k + (p - 1) div p"
      using assms unfolding ceil_div_def by (simp only: div_mult_self3)
    then have "ceil_div n p = k"
      using assms by simp
    ultimately show ?thesis by (simp add: k_def)
  next
    case False
    then have "\<not> p dvd n" by (simp add: r_def dvd_eq_mod_eq_0)
    moreover have "n + p - 1 = Suc k * p + (r - 1)"
      using False by (simp add: n)
    then have "ceil_div n p = Suc k + (r - 1) div p"
      using assms unfolding ceil_div_def by (simp only: div_mult_self3)
    then have "ceil_div n p = Suc k"
      using r by simp
    ultimately show ?thesis by (simp add: k_def)
  qed
qed

lemma doc_path_nonempty [simp]: "doc_path d \<noteq> []"
  by (simp add: doc_path_def)

lemma distinct_apply_clause: "distinct ds \<Longrightarrow> distinct (apply_clause fs c ds)"
  by (cases c) (simp_all add: Let_def)

lemma matching_distinct_paths:
  assumes "wf_store fs"
  shows "distinct (map doc_path (matching fs coll cs))"
proof -
  have docs: "distinct (fs_docs fs)"
    using assms by (auto simp: wf_store_def distinct_map)
  have "distinct base \<Longrightarrow> distinct (foldr (apply_clause fs) cs base)" for base
    by (induction cs) (simp_all add: distinct_apply_clause)
  with docs have ys: "distinct (matching fs coll cs)"
    by (simp add: matching_def)
  from assms have xs: "distinct (map doc_path (fs_docs fs))"
    by (simp add: wf_store_def)
  show ?thesis
    by (rule distinct_paths_sub [OF xs ys set_matching])
qed

lemma after_doc_nth:
  assumes "distinct (map doc_path ds)" and "k < length ds"
  shows "after_doc (doc_path (ds ! k)) ds = Some (drop (Suc k) ds)"
  using assms
proof (induction ds arbitrary: k)
  case Nil
  then show ?case by simp
next
  case (Cons d ds)
  show ?case
  proof (cases k)
    case 0
    then show ?thesis by simp
  next
    case (Suc k')
    with Cons.prems have "ds ! k' \<in> set ds" by simp
    with Cons.prems(1) have "doc_path d \<noteq> doc_path (ds ! k')" by auto
    with Cons Suc show ?thesis by simp
  qed
qed

lemma ref_get_reliable:
  assumes "reliable fs"
  shows "ref_get fs r = (Inr (lookup_doc (fs_docs fs) r), served fs (DocRead None r))"
  using reliable_no_fault [OF assms] by (auto simp: ref_get_def read_doc_def)

lemma q_get_positioned:
  assumes "reliable fs"
    and "positioned (q_after q) (matching fs (q_coll q) (q_clauses q)) = Some ds"
  shows "q_get fs q = (Inr (map snapshot_of (bounded (q_bound q) ds)),
                       served fs (QueryRun (length (bounded (q_bound q) ds))))"
  using reliable_no_fault [OF assms(1)] assms(2) by (auto simp: q_get_def Let_def)

lemma item_of_snapshot:
  "(spread (snap_data (snapshot_of d)))
     (''id'' \<mapsto> JStr (snap_id (snapshot_of d)), ''ref'' \<mapsto> JStr (snap_ref (snapshot_of d)))
   = item_of d"
  by (simp add: snapshot_of_def spread_def item_of_def)

text \<open>Document paths built from segments are canonical.\<close>

lemma split_slash_nonempty [simp]: "split_slash s \<noteq> []"
  by (induction s) (auto split: list.splits)

lemma split_slash_plain: "CHR ''/'' \<notin> set s \<Longrightarrow> split_slash s = [s]"
  by (induction s) auto

lemma split_slash_append:
  "CHR ''/'' \<notin> set s \<Longrightarrow> split_slash (s @ CHR ''/'' # rest) = s # split_slash rest"
  by (induction s) auto

lemma split_join:
  assumes "segs \<noteq> []" and "\<forall>s\<in>set segs. segment s"
  shows "split_slash (join_slash segs) = segs"
  using assms
proof (induction segs rule: join_slash.induct)
  case 1
  then show ?case by simp
next
  case (2 s)
  then show ?case by (simp add: segment_def split_slash_plain)
next
  case (3 s t ss)
  then show ?case by (simp add: segment_def split_slash_append)
qed

lemma join_slash_hd:
  assumes "segs \<noteq> []" and "\<forall>s\<in>set segs. segment s"
  shows "join_slash segs \<noteq> [] \<and> hd (join_slash segs) \<noteq> CHR ''/''"
  using assms
proof (induction segs rule: join_slash.induct)
  case 1
  then show ?case by simp
next
  case (2 s)
  then show ?case by (cases s) (auto simp: segment_def)
next
  case (3 s t ss)
  then show ?case by (cases s) (auto simp: segment_def)
qed

lemma no_double_slash_append:
  assumes "s \<noteq> []" and "CHR ''/'' \<notin> set s" and "rest \<noteq> []" and "hd rest \<noteq> CHR ''/''"
    and "\<not> has_double_slash rest"
  shows "\<not> has_double_slash (s @ CHR ''/'' # rest)"
  using assms
proof (induction s)
  case Nil
  then show ?case by simp
next
  case (Cons c s)
  show ?case
  proof (cases s)
    case Nil
    with Cons.prems show ?thesis by (cases rest) auto
  next
    case (Cons d s')
    with Cons.IH Cons.prems show ?thesis by auto
  qed
qed

lemma no_double_slash_plain: "CHR ''/'' \<notin> set s \<Longrightarrow> \<not> has_double_slash s"
  by (induction s rule: has_double_slash.induct) auto

lemma no_double_slash_join:
  assumes "segs \<noteq> []" and "\<forall>s\<in>set segs. segment s"
  shows "\<not> has_double_slash (join_slash segs)"
  using assms
proof (induction segs rule: join_slash.induct)
  case 1
  then show ?case by simp
next
  case (2 s)
  then show ?case by (simp add: segment_def no_double_slash_plain)
next
  case (3 s t ss)
  from 3 have rest: "\<not> has_double_slash (join_slash (t # ss))" by simp
  from 3 have "join_slash (t # ss) \<noteq> [] \<and> hd (join_slash (t # ss)) \<noteq> CHR ''/''"
    by (intro join_slash_hd) simp_all
  with 3 rest show ?case
    by (simp add: segment_def no_double_slash_append)
qed

lemma fs_doc_join:
  assumes "segs \<noteq> []" and "even (length segs)" and "\<forall>s\<in>set segs. segment s"
  shows "fs_doc (join_slash segs) = Inr (join_slash segs)"
proof -
  have "filter (\<lambda>s. s \<noteq> []) segs = segs"
    using assms(3) by (auto simp: segment_def filter_id_conv)
  with assms split_join [OF assms(1,3)] no_double_slash_join [OF assms(1,3)]
    join_slash_hd [OF assms(1,3)]
  show ?thesis by (simp add: fs_doc_def)
qed

lemma join_slash_snoc: "segs \<noteq> [] \<Longrightarrow> join_slash (segs @ [s]) = join_slash segs @ ''/'' @ s"
  by (induction segs rule: join_slash.induct) auto

lemma canonical_doc:
  assumes "doc_coll d = join_slash segs" and "odd (length segs)"
    and "\<forall>s\<in>set segs. segment s" and "segment (doc_id d)"
  shows "fs_doc (doc_path d) = Inr (doc_path d)"
proof -
  from assms(2) have ne: "segs \<noteq> []" by auto
  have "doc_path d = join_slash (segs @ [doc_id d])"
    by (simp add: doc_path_def assms(1) join_slash_snoc [OF ne])
  moreover have "fs_doc (join_slash (segs @ [doc_id d])) = Inr (join_slash (segs @ [doc_id d]))"
    using assms by (intro fs_doc_join) auto
  ultimately show ?thesis by simp
qed

lemma canonical_refs_fs_doc:
  "canonical_refs fs \<Longrightarrow> d \<in> set (fs_docs fs) \<Longrightarrow> fs_doc (doc_path d) = Inr (doc_path d)"
  by (simp add: canonical_refs_def)

lemma cursorQuery_page:
  assumes rel: "reliable fs" and wf: "wf_store fs" and canon: "canonical_refs fs"
    and M: "matching fs refStr (map clause_of qcs) = M"
    and j: "j \<le> length M" and pos: "startAfter c = position M j"
    and p: "interval c = p" "0 < p"
  shows "\<exists>fs'. cursorQuery fs refStr qcs (Some c)
            = (Inr (map item_of (take p (drop j M)),
                    c\<lparr>startAfter := position M (j + length (take p (drop j M))),
                      hasNext := (length (take p (drop j M)) = p)\<rparr>), fs')
          \<and> reliable fs' \<and> wf_store fs' \<and> canonical_refs fs'
          \<and> matching fs' refStr (map clause_of qcs) = M"
proof -
  define q where "q = applyQueryConstraints (fs_collection refStr) qcs"
  have q: "q_coll q = refStr" "q_clauses q = map clause_of qcs" "q_after q = None" "q_bound q = None"
    by (simp_all add: q_def applyQueryConstraints_eq fs_collection_def)
  define page where "page = take p (drop j M)"
  have dist: "distinct (map doc_path M)"
    using matching_distinct_paths [OF wf, of refStr "map clause_of qcs"] by (simp only: M)
  obtain q' fs1 where
    cur: "applyCursor fs q c = (Inr q', fs1)"
    and q': "q_coll q' = refStr" "q_clauses q' = map clause_of qcs" "q_bound q' = Some p"
    and at: "positioned (q_after q') M = Some (drop j M)"
    and fs1: "reliable fs1" "fs_docs fs1 = fs_docs fs" "fs_filter fs1 = fs_filter fs"
      "fs_rank fs1 = fs_rank fs"
  proof (cases "j = 0")
    case True
    with pos have "startAfter c = None" by (simp add: position_def)
    with p have "applyCursor fs q c = (Inr (q_limit q p), fs)"
      by (simp add: applyCursor_def)
    moreover have "positioned (q_after (q_limit q p)) M = Some (drop j M)"
      using True by (simp add: q_limit_def q positioned_def)
    ultimately show ?thesis
      using q rel by (intro that [of "q_limit q p" fs]) (simp_all add: q_limit_def)
  next
    case False
    define r where "r = doc_path (M ! (j - 1))"
    define snap where "snap = lookup_doc (fs_docs fs) r"
    from False pos have start: "startAfter c = Some r" by (simp add: position_def r_def)
    from False j have "j - 1 < length M" "Suc (j - 1) = j" by simp_all
    then have "M ! (j - 1) \<in> set (fs_docs fs)"
      using set_matching [of fs refStr "map clause_of qcs"] by (auto simp: M)
    then have ref: "fs_doc r = Inr r"
      unfolding r_def by (rule canonical_refs_fs_doc [OF canon])
    have "r \<noteq> []" by (simp add: r_def)
    with start p ref_get_reliable [OF rel, of r]
    have run: "applyCursor fs q c
             = (Inr (q_limit (q_startAfter q snap) p), served fs (DocRead None r))"
      by (simp add: applyCursor_def ref snap_def)
    note \<open>j - 1 < length M\<close> \<open>Suc (j - 1) = j\<close>
    with after_doc_nth [OF dist, of "j - 1"] have "after_doc r M = Some (drop j M)"
      by (simp add: r_def)
    then have "positioned (q_after (q_limit (q_startAfter q snap) p)) M = Some (drop j M)"
      by (simp add: q_limit_def q_startAfter_def positioned_def snap_def)
    with run show ?thesis
      using q reliable_served [OF rel]
      by (intro that [of "q_limit (q_startAfter q snap) p" "served fs (DocRead None r)"])
         (simp_all add: q_limit_def q_startAfter_def)
  qed
  have M1: "matching fs1 refStr (map clause_of qcs) = M"
    using matching_cong [OF fs1(2,3,4)] M by simp
  define fs2 where "fs2 = served fs1 (QueryRun (length page))"
  have get: "q_get fs1 q' = (Inr (map snapshot_of page), fs2)"
    using q_get_positioned [OF fs1(1), of q' "drop j M"] at
    by (simp add: q' M1 bounded_def page_def fs2_def)
  have coll: "collectionQuery fs refStr qcs (Some c) = (Inr (map item_of page), fs2)"
    using cur get
    by (simp add: collectionQuery_def q_def [symmetric] comp_def item_of_snapshot)
  have last_ref: "str_prop (map item_of page ! (length page - 1)) ''ref''
                    = position M (j + length page)" if "page \<noteq> []"
  proof -
    from that have len: "0 < length page" by simp
    have "length page - 1 < p"
      using len p(2) by (simp add: page_def)
    then have "page ! (length page - 1) = drop j M ! (length page - 1)"
      unfolding page_def by (rule nth_take)
    also have "\<dots> = M ! (j + (length page - 1))"
      using j by (rule nth_drop)
    finally have "page ! (length page - 1) = M ! (j + (length page - 1))" .
    moreover from len have "map item_of page ! (length page - 1) = item_of (page ! (length page - 1))"
      by simp
    ultimately show ?thesis
      using len by (simp add: str_prop_def item_of_def position_def)
  qed
  have cursor: "cursorQuery fs refStr qcs (Some c)
      = (Inr (map item_of page,
              c\<lparr>startAfter := position M (j + length page), hasNext := (length page = p)\<rparr>), fs2)"
  proof (cases "page = []")
    case True
    then show ?thesis
      using pos p by (simp add: cursorQuery_def coll Let_def)
  next
    case False
    with last_ref show ?thesis
      using p by (simp add: cursorQuery_def coll Let_def)
  qed
  have "reliable fs2" "wf_store fs2" "canonical_refs fs2"
    "matching fs2 refStr (map clause_of qcs) = M"
    using fs1 wf canon M1 reliable_served [OF fs1(1)] matching_cong [of fs2 fs1]
    by (simp_all add: fs2_def wf_store_def canonical_refs_def)
  with cursor show ?thesis
    unfolding page_def by blast
qed

lemma paginate_default:
  "paginate n fs refStr qcs None = paginate n fs refStr qcs (Some default_cursor)"
  by (cases n) (simp_all add: cursorQuery_default)

lemma paginate_from:
  assumes "reliable fs" and "wf_store fs" and "canonical_refs fs"
    and "matching fs refStr (map clause_of qcs) = M"
    and "j \<le> length M" and "startAfter c = position M j"
    and "interval c = p" and "0 < p"
  shows "\<exists>pages fs'.
      paginate (Suc ((length M - j) div p)) fs refStr qcs (Some c) = Some (Inr pages, fs') \<and>
      concat pages = map item_of (drop j M) \<and>
      length pages = Suc ((length M - j) div p) \<and>
      (p dvd (length M - j) \<longrightarrow> last pages = [])"
  using assms
proof (induction "length M - j" arbitrary: fs c j rule: less_induct)
  case less
  define page where "page = take p (drop j M)"
  define c' where "c' = c\<lparr>startAfter := position M (j + length page), hasNext := (length page = p)\<rparr>"
  from cursorQuery_page [OF less.prems] obtain fs1 where
    step: "cursorQuery fs refStr qcs (Some c) = (Inr (map item_of page, c'), fs1)"
    and fs1: "reliable fs1" "wf_store fs1" "canonical_refs fs1"
      "matching fs1 refStr (map clause_of qcs) = M"
    unfolding page_def c'_def by blast
  show ?case
  proof (cases "p \<le> length M - j")
    case True
    then have full: "length page = p" by (simp add: page_def)
    have next_j: "j + p \<le> length M" using True less.prems(5) by simp
    have smaller: "length M - (j + p) < length M - j"
      using True less.prems(8) by simp
    have c'_fields: "startAfter c' = position M (j + p)" "interval c' = p" "hasNext c'"
      using less.prems(7) by (simp_all add: c'_def full)
    from less.hyps [OF smaller fs1 next_j c'_fields(1,2) less.prems(8)] obtain pages fs' where
      rec: "paginate (Suc ((length M - (j + p)) div p)) fs1 refStr qcs (Some c') = Some (Inr pages, fs')"
      and all: "concat pages = map item_of (drop (j + p) M)"
      and count: "length pages = Suc ((length M - (j + p)) div p)"
      and final: "p dvd (length M - (j + p)) \<longrightarrow> last pages = []"
      by blast
    have fuel: "(length M - j) div p = Suc ((length M - (j + p)) div p)"
      using True less.prems(8) by (simp add: le_div_geq)
    have run: "paginate (Suc ((length M - j) div p)) fs refStr qcs (Some c)
                 = Some (Inr (map item_of page # pages), fs')"
      unfolding fuel using c'_fields(3)
      by (subst paginate.simps(2)) (simp add: step rec del: paginate.simps)
    have "drop (j + p) M = drop p (drop j M)"
      by (simp add: add.commute)
    then have "page @ drop (j + p) M = drop j M"
      unfolding page_def by (simp only: append_take_drop_id)
    then have all': "concat (map item_of page # pages) = map item_of (drop j M)"
      by (simp add: all flip: map_append)
    have count': "length (map item_of page # pages) = Suc ((length M - j) div p)"
      by (simp add: count fuel)
    have "pages \<noteq> []" using count by auto
    moreover have "length M - j = (length M - (j + p)) + p"
      using True by simp
    then have "p dvd (length M - j) \<longleftrightarrow> p dvd (length M - (j + p))"
      by (simp only: dvd_add_triv_right_iff)
    ultimately have final': "p dvd (length M - j) \<longrightarrow> last (map item_of page # pages) = []"
      using final by simp
    from run all' count' final' show ?thesis by blast
  next
    case False
    then have short: "length page < p" "page = drop j M"
      by (simp_all add: page_def)
    then have stop: "\<not> hasNext c'" by (simp add: c'_def)
    have fuel: "(length M - j) div p = 0"
      using False by simp
    have run: "paginate (Suc ((length M - j) div p)) fs refStr qcs (Some c)
                 = Some (Inr [map item_of page], fs1)"
      unfolding fuel using stop by (simp add: step)
    have "p dvd (length M - j) \<longrightarrow> page = []"
      using False less.prems(5) short(2) by (auto dest!: dvd_imp_le)
    with run short(2) fuel show ?thesis by simp
  qed
qed

lemma distinct_items:
  assumes "distinct (map doc_path M)"
  shows "distinct (map item_of M)"
proof -
  from assms have M: "distinct M" "inj_on doc_path (set M)"
    by (simp_all add: distinct_map)
  have "inj_on item_of (set M)"
  proof (rule inj_onI)
    fix x y
    assume x: "x \<in> set M" and y: "y \<in> set M" and eq: "item_of x = item_of y"
    from eq have "item_of x ''ref'' = item_of y ''ref''" by simp
    then have "doc_path x = doc_path y" by (simp add: item_of_def)
    with M(2) x y show "x = y" by (simp add: inj_on_def)
  qed
  with M(1) show ?thesis by (simp add: distinct_map)
qed

text \<open>
  Claim C3. For every collection of \<open>N\<close> records and page size \<open>p > 0\<close>, on a store with
  one document per path, each a well-formed document path (what \<^verbatim>\<open>firestore.doc\<close> accepts
  and returns for it), and an engine that fails no call: a fresh session (started with no
  cursor, where \<open>p\<close> is the default 10, or with a cursor of page size \<open>p\<close> and no
  \<^verbatim>\<open>startAfter\<close>) that calls \<^verbatim>\<open>cursorQuery\<close> on the collection, passing each returned
  cursor back in until \<^verbatim>\<open>hasNext\<close> is false, ends after \<open>N div p + 1\<close> calls; the pages,
  in order, hold the items of all \<open>N\<close> records exactly once; and the number of calls is
  \<open>\<lceil>N / p\<rceil>\<close>, or \<open>\<lceil>N / p\<rceil> + 1\<close> with an empty last page (when \<open>p\<close> divides \<open>N\<close>).
\<close>

theorem cursor_session_retrieves_collection:
  assumes "reliable fs" and "wf_store fs" and "0 < p" and "fresh_session start p"
    and "canonical_refs fs"
  shows "\<exists>pages fs'.
      paginate (Suc (length (collection_docs fs refStr) div p)) fs refStr [] start
        = Some (Inr pages, fs') \<and>
      concat pages = map item_of (collection_docs fs refStr) \<and>
      distinct (concat pages) \<and>
      length pages = Suc (length (collection_docs fs refStr) div p) \<and>
      (if p dvd length (collection_docs fs refStr)
       then length pages = ceil_div (length (collection_docs fs refStr)) p + 1 \<and> last pages = []
       else length pages = ceil_div (length (collection_docs fs refStr)) p)"
proof -
  define M where "M = collection_docs fs refStr"
  define c where "c = (case start of None \<Rightarrow> default_cursor | Some c \<Rightarrow> c)"
  have M: "matching fs refStr (map clause_of []) = M"
    by (simp add: M_def matching_def collection_docs_def)
  have c: "startAfter c = position M 0" "interval c = p"
    using assms(4)
    by (auto simp: c_def fresh_session_def position_def default_cursor_def split: option.splits)
  have start: "paginate n fs refStr [] start = paginate n fs refStr [] (Some c)" for n
    by (cases start) (simp_all add: c_def paginate_default)
  from paginate_from [OF assms(1,2,5) M _ c assms(3)] obtain pages fs' where
    run: "paginate (Suc (length M div p)) fs refStr [] (Some c) = Some (Inr pages, fs')"
    and all: "concat pages = map item_of M"
    and count: "length pages = Suc (length M div p)"
    and final: "p dvd length M \<longrightarrow> last pages = []"
    by auto
  have "distinct (map doc_path M)"
    using matching_distinct_paths [OF assms(2), of refStr "map clause_of []"] by (simp only: M)
  then have "distinct (concat pages)"
    unfolding all by (rule distinct_items)
  with run all count final ceil_div_cases [OF assms(3), of "length M"] show ?thesis
    unfolding M_def [symmetric] start by auto
qed

theorem cursor_session_retrieves_collection_witness:
  "reliable example_store \<and> wf_store example_store \<and> canonical_refs example_store \<and>
   (0::nat) < 2 \<and>
   fresh_session (Some \<lparr>interval = 2, hasNext = True, startAfter = None\<rparr>) 2 \<and>
   collection_docs example_store ''items'' = [item_a, item_b, item_c] \<and>
   (\<exists>pages fs'.
      paginate 2 example_store ''items'' [] (Some \<lparr>interval = 2, hasNext = True, startAfter = None\<rparr>)
        = Some (Inr pages, fs') \<and>
      concat pages = [item_of item_a, item_of item_b, item_of item_c] \<and>
      distinct (concat pages) \<and> length pages = 2)"
proof -
  let ?c = "\<lparr>interval = 2, hasNext = True, startAfter = None\<rparr>"
  have rel: "reliable example_store" and wf: "wf_store example_store"
    by (simp_all add: example_defs reliable_def wf_store_def doc_path_def)
  have canon: "canonical_refs example_store"
    by (simp add: example_defs canonical_refs_def doc_path_def fs_doc_def)
  have fresh: "fresh_session (Some ?c) 2"
    by (simp add: fresh_session_def)
  have docs: "collection_docs example_store ''items'' = [item_a, item_b, item_c]"
    by (simp add: example_defs collection_docs_def)
  have size: "Suc (length (collection_docs example_store ''items'') div 2) = 2"
    by (simp add: docs)
  from cursor_session_retrieves_collection [OF rel wf _ fresh canon, of "''items''"]
  obtain pages fs' where
    "paginate (Suc (length (collection_docs example_store ''items'') div 2)) example_store ''items'' []
       (Some ?c) = Some (Inr pages, fs')"
    "concat pages = map item_of (collection_docs example_store ''items'')"
    "distinct (concat pages)"
    "length pages = Suc (length (collection_docs example_store ''items'') div 2)"
    by auto
  then have "paginate 2 example_store ''items'' [] (Some ?c) = Some (Inr pages, fs')"
    "concat pages = [item_of item_a, item_of item_b, item_of item_c]"
    "distinct (concat pages)" "length pages = 2"
    unfolding size by (simp_all add: docs)
  with rel wf canon fresh docs show ?thesis
    by (intro conjI exI [of _ pages] exI [of _ fs']) simp_all
qed

section \<open>Arguments are not mutated\<close>

lemma delete_prop_fresh:
  "length h \<le> a \<Longrightarrow> prefix h h' \<Longrightarrow> prefix h (delete_prop h' a k)"
  by (auto simp: delete_prop_def prefix_def list_update_append split: option.splits)

lemma delete_prop_length [simp]: "length (delete_prop h a k) = length h"
  by (simp add: delete_prop_def split: option.splits)

lemma queryData_ref_frame:
  assumes "queryData_ref h qr = Some (clone, h')"
  shows "prefix h h'" and "clone = length h" and "length h' = Suc (length h)"
    and "read_obj h' qr = read_obj h qr"
proof -
  from assms obtain props where
    qr: "read_obj h qr = Some props"
    and clone: "clone = length h"
    and h': "h' = delete_prop (delete_prop (h @ [ObjCell props]) (length h) ''id'') (length h) ''ref''"
    by (auto simp: queryData_ref_def alloc_def split: option.splits)
  show "clone = length h" by (rule clone)
  show pre: "prefix h h'"
    unfolding h' by (intro delete_prop_fresh) simp_all
  show len: "length h' = Suc (length h)"
    by (simp add: h')
  from qr have "qr < length h"
    by (auto simp: read_obj_def cell_at_def split: if_splits)
  moreover from pre obtain zs where "h' = h @ zs" by (auto simp: prefix_def)
  ultimately show "read_obj h' qr = read_obj h qr"
    by (simp add: read_obj_def cell_at_def nth_append)
qed

lemma queryData_ref_value:
  assumes "queryData_ref h qr = Some (clone, h')" and "read_obj h qr = Some props"
  shows "read_obj h' clone = Some (queryData props)"
  using assms
  by (auto simp: queryData_ref_def alloc_def delete_prop_def read_obj_def cell_at_def queryData_def
      nth_append split: option.splits cell.splits if_splits)

lemma collectionQuery_ref_frame:
  assumes "collectionQuery_ref fs h refStr qcs cur = Some (r, fs', h')"
  shows "prefix h h'"
  using assms
  by (auto simp: collectionQuery_ref_def alloc_def alloc_all_def Let_def
      split: option.splits prod.splits sum.splits)

lemma cursorQuery_ref_frame:
  assumes "cursorQuery_ref fs h refStr qcs cur = Some (Inr (data, cursor'), fs', h')"
  shows "prefix h h'" and "length h \<le> cursor'" and "cursor' < length h'"
proof -
  obtain h1 cursor where
    first: "(case cur of Some a \<Rightarrow> (h, a) | None \<Rightarrow> alloc h (CursorCell default_cursor)) = (h1, cursor)"
    by (cases "case cur of Some a \<Rightarrow> (h, a) | None \<Rightarrow> alloc h (CursorCell default_cursor)")
  then have h1: "prefix h h1"
    by (auto simp: alloc_def split: option.splits)
  from assms first obtain fs1 h2 c' where
    coll: "collectionQuery_ref fs h1 refStr qcs (Some cursor) = Some (Inr data, fs1, h2)"
    and new: "alloc h2 (CursorCell c') = (h', cursor')"
    by (auto simp: cursorQuery_ref_def Let_def split: option.splits prod.splits sum.splits)
  from collectionQuery_ref_frame [OF coll] have h2: "prefix h1 h2" .
  from new have h': "h' = h2 @ [CursorCell c']" "cursor' = length h2"
    by (simp_all add: alloc_def)
  from h1 h2 have "prefix h h2" by (rule prefix_order.order_trans)
  then show "prefix h h'" by (simp add: h'(1))
  from \<open>prefix h h2\<close> show "length h \<le> cursor'" by (simp add: h'(2) prefix_length_le)
  show "cursor' < length h'" by (simp add: h')
qed

lemma cursorQuery_ref_frame_any:
  assumes "cursorQuery_ref fs h refStr qcs cur = Some (r, fs', h')"
  shows "prefix h h'"
proof -
  obtain h1 cursor where
    first: "(case cur of Some a \<Rightarrow> (h, a) | None \<Rightarrow> alloc h (CursorCell default_cursor)) = (h1, cursor)"
    by (cases "case cur of Some a \<Rightarrow> (h, a) | None \<Rightarrow> alloc h (CursorCell default_cursor)")
  then have h1: "prefix h h1"
    by (auto simp: alloc_def split: option.splits)
  from assms first obtain r1 fs1 h2 where
    coll: "collectionQuery_ref fs h1 refStr qcs (Some cursor) = Some (r1, fs1, h2)"
    and h': "prefix h2 h'"
    by (auto simp: cursorQuery_ref_def alloc_def Let_def split: option.splits prod.splits sum.splits)
  from h1 collectionQuery_ref_frame [OF coll] have "prefix h h2"
    by (rule prefix_order.order_trans)
  then show ?thesis using h' by (rule prefix_order.order_trans)
qed

lemma cursorQuery_ref_reads_cursor:
  assumes "cursorQuery_ref fs h refStr qcs (Some a) = Some (r, fs', h')"
  shows "a < length h"
proof -
  from assms have "collectionQuery_ref fs h refStr qcs (Some a) \<noteq> None"
    by (auto simp: cursorQuery_ref_def split: option.splits)
  then have "read_cursor h a \<noteq> None"
    by (auto simp: collectionQuery_ref_def split: option.splits)
  then show ?thesis
    by (auto simp: read_cursor_def cell_at_def split: if_splits)
qed

lemma prefix_cell_at:
  assumes "prefix h h'" and "a < length h"
  shows "cell_at h' a = cell_at h a"
proof -
  from assms(1) obtain zs where "h' = h @ zs" by (auto simp: prefix_def)
  with assms(2) show ?thesis by (simp add: cell_at_def nth_append)
qed

text \<open>The functions on the heap return what the functions on values return.\<close>

lemma read_all_range:
  assumes "\<And>i. i < length xs \<Longrightarrow> rd (n + i) = Some (xs ! i)"
  shows "read_all rd [n ..< n + length xs] = Some xs"
  using assms
proof (induction xs arbitrary: n)
  case Nil
  then show ?case by simp
next
  case (Cons x xs)
  from Cons.prems [of 0] have head: "rd n = Some x" by simp
  have "rd (Suc n + i) = Some (xs ! i)" if "i < length xs" for i
    using Cons.prems [of "Suc i"] that by simp
  then have "read_all rd [Suc n ..< Suc n + length xs] = Some xs"
    by (rule Cons.IH)
  moreover have "[n ..< n + Suc (length xs)] = n # [Suc n ..< n + Suc (length xs)]"
    by (rule upt_conv_Cons) simp
  ultimately show ?case by (simp add: head)
qed

lemma read_items_allocated:
  "read_items (h @ map ObjCell items @ [ArrayCell [length h ..< length h + length items]])
     (length h + length items) = Some items"
proof -
  let ?h' = "h @ map ObjCell items @ [ArrayCell [length h ..< length h + length items]]"
  have "read_obj ?h' (length h + i) = Some (items ! i)" if "i < length items" for i
    using that by (simp add: read_obj_def cell_at_def nth_append)
  then have "read_all (read_obj ?h') [length h ..< length h + length items] = Some items"
    by (rule read_all_range)
  then show ?thesis
    by (simp add: read_items_def cell_at_def nth_append)
qed

lemma collectionQuery_ref_value:
  assumes "collectionQuery_ref fs h refStr qcs (Some a) = Some (Inr data, fs', h')"
    and "read_constraints h qcs = Some cs" and "read_cursor h a = Some c"
  shows "\<exists>items. collectionQuery fs refStr cs (Some c) = (Inr items, fs') \<and>
           read_items h' data = Some items \<and> prefix h h'"
proof (cases "collectionQuery fs refStr cs (Some c)")
  case (Pair r fs1)
  show ?thesis
  proof (cases r)
    case (Inl e)
    with assms Pair show ?thesis
      by (simp add: collectionQuery_ref_def)
  next
    case (Inr items)
    with assms Pair have "fs' = fs1" "data = length h + length items"
      "h' = h @ map ObjCell items @ [ArrayCell [length h ..< length h + length items]]"
      by (auto simp: collectionQuery_ref_def alloc_def alloc_all_def)
    with Pair Inr read_items_allocated [of h items] show ?thesis
      by (intro exI [of _ items]) simp
  qed
qed

lemma cursorQuery_ref_value:
  assumes "cursorQuery_ref fs h refStr qcs (Some a) = Some (Inr (data, cursor'), fs', h')"
    and "read_constraints h qcs = Some cs" and "read_cursor h a = Some c"
  shows "\<exists>items c'. cursorQuery fs refStr cs (Some c) = (Inr (items, c'), fs') \<and>
           read_items h' data = Some items \<and> read_cursor h' cursor' = Some c'"
proof -
  from assms(1) obtain h2 where
    coll: "collectionQuery_ref fs h refStr qcs (Some a) = Some (Inr data, fs', h2)"
    by (auto simp: cursorQuery_ref_def Let_def split: option.splits prod.splits sum.splits)
  from collectionQuery_ref_value [OF coll assms(2,3)] obtain items where
    run: "collectionQuery fs refStr cs (Some c) = (Inr items, fs')"
    and items: "read_items h2 data = Some items" and pre: "prefix h h2"
    by blast
  from assms(3) have "a < length h"
    by (auto simp: read_cursor_def cell_at_def split: if_splits)
  with pre assms(3) have cur: "read_cursor h2 a = Some c"
    by (simp add: read_cursor_def prefix_cell_at)
  define c' where "c' = c\<lparr>startAfter := (if length items = 0 then startAfter c
                                 else str_prop (items ! (length items - 1)) ''ref''),
                          hasNext := (length items = interval c)\<rparr>"
  from assms(1) coll items cur have h': "h' = h2 @ [CursorCell c']" and new: "cursor' = length h2"
    by (auto simp: cursorQuery_ref_def alloc_def Let_def c'_def)
  from items have "data < length h2"
    by (auto simp: read_items_def cell_at_def split: if_splits)
  have "read_items h' data = Some items"
  proof -
    from items obtain as where as: "cell_at h2 data = Some (ArrayCell as)"
      "read_all (read_obj h2) as = Some items"
      by (auto simp: read_items_def split: option.splits cell.splits)
    have same: "read_all (read_obj h2) bs = Some xs \<Longrightarrow> read_all (read_obj h') bs = Some xs" for bs xs
    proof (induction bs arbitrary: xs)
      case Nil
      then show ?case by simp
    next
      case (Cons b bs)
      from Cons.prems obtain x xs' where
        x: "read_obj h2 b = Some x" and rest: "read_all (read_obj h2) bs = Some xs'"
        and xs: "xs = x # xs'"
        by (auto split: option.splits)
      from x have "b < length h2"
        by (auto simp: read_obj_def cell_at_def split: if_splits)
      with x have "read_obj h' b = Some x"
        by (simp add: h' read_obj_def cell_at_def nth_append)
      with Cons.IH [OF rest] xs show ?case by simp
    qed
    from as(1) \<open>data < length h2\<close> have "cell_at h' data = Some (ArrayCell as)"
      by (simp add: h' cell_at_def nth_append)
    with same [OF as(2)] show ?thesis by (simp add: read_items_def)
  qed
  moreover have "read_cursor h' cursor' = Some c'"
    by (simp add: h' new read_cursor_def cell_at_def)
  moreover have "cursorQuery fs refStr cs (Some c) = (Inr (items, c'), fs')"
    by (simp add: cursorQuery_def run Let_def c'_def)
  ultimately show ?thesis by blast
qed

text \<open>
  Claim C9. No operation mutates a caller-supplied argument in place. In every heap and
  for every argument: \<^verbatim>\<open>cursorQuery\<close> leaves every object that existed before the call
  unchanged, the input cursor among them, and the cursor it returns is a new object;
  \<^verbatim>\<open>_applyQueryConstraints\<close> leaves the heap unchanged, so the constraint list and every
  constraint in it are as before; \<^verbatim>\<open>queryData\<close> leaves every existing object unchanged,
  its input still holds what it held (its \<^verbatim>\<open>id\<close> and \<^verbatim>\<open>ref\<close> included), and the object
  it returns is a new one.
\<close>

theorem arguments_are_not_mutated:
  "(\<forall>r fs' h'. cursorQuery_ref fs h refStr qcs (Some cursor) = Some (r, fs', h') \<longrightarrow>
      prefix h h' \<and> read_cursor h' cursor = read_cursor h cursor \<and>
      (\<forall>data cursor'. r = Inr (data, cursor') \<longrightarrow> length h \<le> cursor' \<and> cursor' \<noteq> cursor))
   \<and> (\<forall>q' h'. applyQueryConstraints_ref h query qcs = Some (q', h') \<longrightarrow>
      h' = h \<and> read_constraints h' qcs = read_constraints h qcs)
   \<and> (\<forall>clone h'. queryData_ref h qr = Some (clone, h') \<longrightarrow>
      prefix h h' \<and> read_obj h' qr = read_obj h qr \<and> clone \<noteq> qr \<and> length h \<le> clone)"
proof (intro conjI allI impI)
  fix r fs' h'
  assume run: "cursorQuery_ref fs h refStr qcs (Some cursor) = Some (r, fs', h')"
  show pre: "prefix h h'" by (rule cursorQuery_ref_frame_any [OF run])
  have valid: "cursor < length h" by (rule cursorQuery_ref_reads_cursor [OF run])
  with pre show "read_cursor h' cursor = read_cursor h cursor"
    by (simp add: read_cursor_def prefix_cell_at)
  fix data cursor'
  assume "r = Inr (data, cursor')"
  with run have "length h \<le> cursor'" by (auto dest: cursorQuery_ref_frame(2))
  with valid show "length h \<le> cursor'" and "cursor' \<noteq> cursor" by simp_all
next
  fix q' h'
  assume "applyQueryConstraints_ref h query qcs = Some (q', h')"
  then show "h' = h" and "read_constraints h' qcs = read_constraints h qcs"
    by (auto simp: applyQueryConstraints_ref_def split: option.splits)
next
  fix clone h'
  assume run: "queryData_ref h qr = Some (clone, h')"
  show "prefix h h'" and "read_obj h' qr = read_obj h qr"
    by (rule queryData_ref_frame [OF run])+
  from run have "qr < length h"
    by (auto simp: queryData_ref_def read_obj_def cell_at_def split: option.splits if_splits)
  with queryData_ref_frame(2) [OF run] show "clone \<noteq> qr" and "length h \<le> clone" by simp_all
qed

theorem arguments_are_not_mutated_witness:
  "(\<exists>data cursor' fs' h'.
      cursorQuery_ref example_store example_heap ''items'' 3 (Some 1)
        = Some (Inr (data, cursor'), fs', h') \<and>
      read_cursor h' 1 = Some \<lparr>interval = 2, hasNext = True, startAfter = None\<rparr> \<and>
      cursor' \<noteq> 1 \<and>
      read_cursor h' cursor' = Some \<lparr>interval = 2, hasNext = True, startAfter = Some ''items/b''\<rparr>)
   \<and> (\<exists>q'. applyQueryConstraints_ref example_heap (fs_collection ''items'') 3
               = Some (q', example_heap))
   \<and> (\<exists>clone h'.
      queryData_ref example_heap 0 = Some (clone, h') \<and>
      read_obj h' 0 = Some (item_of item_a) \<and> clone \<noteq> 0 \<and>
      read_obj h' clone = Some (doc_data item_a |` (- {''id'', ''ref''})))"
proof (intro conjI)
  note C9 = arguments_are_not_mutated [of example_store example_heap "''items''" 3 1
      "fs_collection ''items''" 0]
  have cursor: "read_cursor example_heap 1 = Some \<lparr>interval = 2, hasNext = True, startAfter = None\<rparr>"
    by (simp add: heap_defs)
  obtain data cursor' fs' h' where
    run: "cursorQuery_ref example_store example_heap ''items'' 3 (Some 1)
            = Some (Inr (data, cursor'), fs', h')"
    and new: "read_cursor h' cursor'
            = Some \<lparr>interval = 2, hasNext = True, startAfter = Some ''items/b''\<rparr>"
    by (simp add: heap_defs example_defs engine_defs util_defs orderBy_def item_of_def
        numeral_eq_Suc upt_rec nth_append)
  from C9 run cursor have "read_cursor h' 1 = Some \<lparr>interval = 2, hasNext = True, startAfter = None\<rparr>"
    and "cursor' \<noteq> 1"
    by auto
  with run new
  show "\<exists>data cursor' fs' h'.
      cursorQuery_ref example_store example_heap ''items'' 3 (Some 1)
        = Some (Inr (data, cursor'), fs', h') \<and>
      read_cursor h' 1 = Some \<lparr>interval = 2, hasNext = True, startAfter = None\<rparr> \<and>
      cursor' \<noteq> 1 \<and>
      read_cursor h' cursor' = Some \<lparr>interval = 2, hasNext = True, startAfter = Some ''items/b''\<rparr>"
    by blast
  obtain q' h' where qc: "applyQueryConstraints_ref example_heap (fs_collection ''items'') 3 = Some (q', h')"
    by (simp add: heap_defs)
  with C9 have "h' = example_heap" by blast
  with qc show "\<exists>q'. applyQueryConstraints_ref example_heap (fs_collection ''items'') 3
                  = Some (q', example_heap)"
    by blast
  have item: "read_obj example_heap 0 = Some (item_of item_a)"
    by (simp add: heap_defs)
  obtain clone h'' where qd: "queryData_ref example_heap 0 = Some (clone, h'')"
    by (simp add: heap_defs)
  have "queryData (item_of item_a) = doc_data item_a |` (- {''id'', ''ref''})"
    by (auto simp: queryData_def item_of_def restrict_map_def fun_eq_iff)
  with queryData_ref_value [OF qd item]
  have "read_obj h'' clone = Some (doc_data item_a |` (- {''id'', ''ref''}))"
    by simp
  moreover from C9 qd item have "read_obj h'' 0 = Some (item_of item_a)" "clone \<noteq> 0"
    by auto
  ultimately show "\<exists>clone h'.
      queryData_ref example_heap 0 = Some (clone, h') \<and>
      read_obj h' 0 = Some (item_of item_a) \<and> clone \<noteq> 0 \<and>
      read_obj h' clone = Some (doc_data item_a |` (- {''id'', ''ref''}))"
    using qd by auto
qed

end
